theory Spec2Isabelle
  imports Main "HOL-Library.Sublist"
begin

section \<open>Python string primitives used by \<open>tools/instrument.py\<close>\<close>

text \<open>
  A Python \<open>str\<close> is modelled as a \<open>string\<close> (a list of characters). The program only
  concatenates, slices and compares strings, and every literal it contains is ASCII, so
  nothing below depends on how many characters the alphabet has.

  \<open>str_in sub s\<close> is the Python expression \<open>sub in s\<close>: some slice of \<open>s\<close> equals \<open>sub\<close>.
\<close>

fun str_in :: "string \<Rightarrow> string \<Rightarrow> bool" where
  "str_in sub [] = (sub = [])"
| "str_in sub (c # cs) = (prefix sub (c # cs) \<or> str_in sub cs)"

text \<open>
  \<open>py_find s sub start\<close> is \<open>s.find(sub, start)\<close> for a start \<open>\<ge> 0\<close>: the lowest index
  \<open>i \<ge> start\<close> with \<open>s[i:i+len(sub)] == sub\<close>, and \<open>-1\<close> when there is none. The scan
  \<open>find_at\<close> walks the rest of the string, \<open>i\<close> being the index of its first character.
\<close>

fun find_at :: "string \<Rightarrow> string \<Rightarrow> nat \<Rightarrow> int" where
  "find_at sub [] i = (if sub = [] then int i else - 1)"
| "find_at sub (c # cs) i = (if prefix sub (c # cs) then int i else find_at sub cs (Suc i))"

definition py_find :: "string \<Rightarrow> string \<Rightarrow> nat \<Rightarrow> int" where
  "py_find s sub start = (if length s < start then - 1 else find_at sub (drop start s) start)"

text \<open>
  \<open>py_rfind s sub e\<close> is \<open>s.rfind(sub, 0, e)\<close> for an end \<open>e \<ge> 0\<close>: the highest index
  \<open>i\<close> at which \<open>sub\<close> lies inside the slice \<open>s[0:e]\<close>, and \<open>-1\<close> when there is none.
  The scan \<open>rfind_at\<close> walks the slice and remembers the last match seen.
\<close>

fun rfind_at :: "string \<Rightarrow> string \<Rightarrow> nat \<Rightarrow> int \<Rightarrow> int" where
  "rfind_at sub [] i found = (if sub = [] then int i else found)"
| "rfind_at sub (c # cs) i found =
     rfind_at sub cs (Suc i) (if prefix sub (c # cs) then int i else found)"

definition py_rfind :: "string \<Rightarrow> string \<Rightarrow> nat \<Rightarrow> int" where
  "py_rfind s sub e = rfind_at sub (take e s) 0 (- 1)"

text \<open>The slices \<open>s[:n]\<close> and \<open>s[n:]\<close> for \<open>n \<ge> 0\<close>.\<close>

definition slice_to :: "string \<Rightarrow> nat \<Rightarrow> string" where
  "slice_to s n = take n s"

definition slice_from :: "string \<Rightarrow> nat \<Rightarrow> string" where
  "slice_from s n = drop n s"

section \<open>The file system and the console\<close>

text \<open>
  The program reads a whole file, computes a new content and writes the whole file back,
  and prints to the console. The world it acts on holds the files (path to content), the
  log of the writes performed (path and content written, oldest first) and the console
  (one entry for each call of \<open>print\<close>, oldest first). Opening a file that does not exist
  raises; that is the error value \<open>FileNotFoundError\<close>. The other failures of the operating
  system (a file that cannot be written, bytes that do not decode) are outside this model.

  The files are opened in text mode without a \<open>newline\<close> argument. Reading then hands over
  the stored text with every carriage return followed by a newline, and every other
  carriage return, turned into one newline: that is \<open>universal_newlines\<close>, and the content
  the operations work on never holds a carriage return. Writing stores the text as it is
  given, as on a system whose line separator is the newline character. \<open>files\<close> holds
  the stored text.
\<close>

datatype io_error = FileNotFoundError string

record world =
  files :: "string \<rightharpoonup> string"
  writes :: "(string \<times> string) list"
  console :: "string list"

fun universal_newlines :: "string \<Rightarrow> string" where
  "universal_newlines [] = []"
| "universal_newlines [c] = (if c = CHR 0x0D then [CHR 0x0A] else [c])"
| "universal_newlines (c # d # ds) =
     (if c = CHR 0x0D \<and> d = CHR 0x0A then CHR 0x0A # universal_newlines ds
      else if c = CHR 0x0D then CHR 0x0A # universal_newlines (d # ds)
      else c # universal_newlines (d # ds))"

definition read_file :: "string \<Rightarrow> world \<Rightarrow> io_error + string" where
  "read_file filename w =
     (case files w filename of
        None \<Rightarrow> Inl (FileNotFoundError filename)
      | Some stored \<Rightarrow> Inr (universal_newlines stored))"

definition write_file :: "string \<Rightarrow> string \<Rightarrow> world \<Rightarrow> world" where
  "write_file filename content w =
     w\<lparr>files := (files w)(filename \<mapsto> content),
       writes := writes w @ [(filename, content)]\<rparr>"

definition print :: "string \<Rightarrow> world \<Rightarrow> world" where
  "print msg w = w\<lparr>console := console w @ [msg]\<rparr>"

section \<open>The two instrumentation operations\<close>

text \<open>
  \<open>add_trace(filename, func_sig, label)\<close>: insert the trace line after the first newline
  that follows the first opening brace at or after the first occurrence of \<open>func_sig\<close>.
  The trace line is built in the function itself, from the literal
  \<^verbatim>\<open>'    fprintf(stderr, ">>> ' + label + '\\n");\n'\<close>: a backslash and the letter n
  inside the C string, a real newline at the end.
\<close>

definition add_trace :: "string \<Rightarrow> string \<Rightarrow> string \<Rightarrow> world \<Rightarrow> io_error + world" where
  \<open>add_trace filename func_sig label w =
     (case read_file filename w of
        Inl e \<Rightarrow> Inl e
      | Inr content \<Rightarrow>
          let trace_line =
                ''    fprintf(stderr, ">>> '' @ label @ [CHR 0x5C] @ ''n");'' @ [CHR 0x0A] in
          if str_in trace_line content then Inr w
          else
            let idx = py_find content func_sig 0 in
            if idx < 0 then
              Inr (print (''  WARNING: '' @ [CHR 0x27] @ slice_to func_sig 60 @ ''...''
                          @ [CHR 0x27] @ '' not found in '' @ filename) w)
            else
              let brace_idx = py_find content ''{'' (nat idx) in
              if brace_idx < 0 then Inr w
              else
                let newline_idx = py_find content [CHR 0x0A] (nat brace_idx) in
                if newline_idx < 0 then Inr w
                else
                  let content' = slice_to content (nat (newline_idx + 1)) @ trace_line
                                   @ slice_from content (nat (newline_idx + 1)) in
                  Inr (print (''  Instrumented '' @ label @ '' in '' @ filename)
                         (write_file filename content' w)))\<close>

text \<open>
  \<open>add_trace_before(filename, code_marker, label)\<close>: insert the trace line at the start of
  the line that holds the first occurrence of \<open>code_marker\<close>. It builds its trace line
  from its own copy of the literal.
\<close>

definition add_trace_before :: "string \<Rightarrow> string \<Rightarrow> string \<Rightarrow> world \<Rightarrow> io_error + world" where
  \<open>add_trace_before filename code_marker label w =
     (case read_file filename w of
        Inl e \<Rightarrow> Inl e
      | Inr content \<Rightarrow>
          let trace_line =
                ''    fprintf(stderr, ">>> '' @ label @ [CHR 0x5C] @ ''n");'' @ [CHR 0x0A] in
          if str_in trace_line content then Inr w
          else
            let idx = py_find content code_marker 0 in
            if idx < 0 then
              Inr (print (''  WARNING before: '' @ [CHR 0x27] @ slice_to code_marker 60 @ ''...''
                          @ [CHR 0x27] @ '' not found in '' @ filename) w)
            else
              let line_start = py_rfind content [CHR 0x0A] (nat idx) in
              let line_start = (if line_start < 0 then 0 else line_start + 1) in
              let content' = slice_to content (nat line_start) @ trace_line
                               @ slice_from content (nat line_start) in
              Inr (print (''  Instrumented '' @ label @ '' (before) in '' @ filename)
                     (write_file filename content' w)))\<close>

section \<open>Notions used to state the properties\<close>

text \<open>
  The trace statement for a label, as the specification words it: four spaces, then
  \<^verbatim>\<open>fprintf(stderr, ">>> \<close> followed by the label, a backslash, the letter n and
  \<^verbatim>\<open>");\<close>, then a newline.
\<close>

definition trace_statement :: "string \<Rightarrow> string" where
  \<open>trace_statement label =
     replicate 4 (CHR '' '') @ (''fprintf(stderr, ">>> '' @ label @ [CHR 0x5C, CHR ''n''] @ ''");'')
       @ [CHR 0x0A]\<close>

text \<open>
  \<open>occurs_at sub s i\<close>: the string \<open>sub\<close> occurs in \<open>s\<close> at index \<open>i\<close>.
  \<open>first_at sub s start i\<close>: \<open>i\<close> is the first index at or after \<open>start\<close> where it occurs.
\<close>

definition occurs_at :: "string \<Rightarrow> string \<Rightarrow> nat \<Rightarrow> bool" where
  "occurs_at sub s i \<longleftrightarrow> i \<le> length s \<and> prefix sub (drop i s)"

definition first_at :: "string \<Rightarrow> string \<Rightarrow> nat \<Rightarrow> nat \<Rightarrow> bool" where
  "first_at sub s start i \<longleftrightarrow>
     start \<le> i \<and> occurs_at sub s i \<and> (\<forall>j \<in> set [start..<i]. \<not> occurs_at sub s j)"

text \<open>
  \<open>line_start_of s i p\<close>: \<open>p\<close> is the start of the line of \<open>s\<close> that holds index \<open>i\<close>:
  \<open>p\<close> is \<open>0\<close> or comes right after a newline, and no newline lies in \<open>s[p:i]\<close>.
\<close>

definition line_start_of :: "string \<Rightarrow> nat \<Rightarrow> nat \<Rightarrow> bool" where
  "line_start_of s i p \<longleftrightarrow>
     p \<le> i \<and> i \<le> length s \<and> (p = 0 \<or> s ! (p - 1) = CHR 0x0A)
     \<and> CHR 0x0A \<notin> set (take (i - p) (drop p s))"

text \<open>
  The number of lines of a text is the number of its newline characters, and the number
  of occurrences of a string counts every index at which it occurs.
\<close>

definition line_count :: "string \<Rightarrow> nat" where
  "line_count s = length (filter (\<lambda>c. c = CHR 0x0A) s)"

definition occurrences :: "string \<Rightarrow> string \<Rightarrow> nat" where
  "occurrences sub s = length (filter (occurs_at sub s) [0..<Suc (length s)])"

text \<open>
  \<open>line_of s k\<close> is the number of the line of \<open>s\<close> that holds index \<open>k\<close>, counted from
  \<open>0\<close>: the number of newlines before \<open>k\<close>.

  \<open>block_closed d s\<close> reads \<open>s\<close> as program text at brace depth \<open>d\<close> and tells whether a
  closing brace brings the depth back to \<open>0\<close> on the way. For a text \<open>s\<close> that starts with
  an opening brace, \<open>block_closed 0 s\<close> says that the block this brace opens ends inside
  \<open>s\<close>.
\<close>

definition line_of :: "string \<Rightarrow> nat \<Rightarrow> nat" where
  "line_of s k = line_count (take k s)"


text \<open>
  What a run left behind: the stored text of a file afterwards (\<open>content_after\<close>), what
  reading the file afterwards gives (\<open>read_after\<close>), the writes it performed and
  the messages it printed. \<open>twice f\<close> runs an operation two times in sequence; an error of
  the first run ends it.
\<close>

definition content_after :: "string \<Rightarrow> io_error + world \<Rightarrow> string option" where
  "content_after filename r = (case r of Inl e \<Rightarrow> None | Inr w' \<Rightarrow> files w' filename)"

definition read_after :: "string \<Rightarrow> io_error + world \<Rightarrow> io_error + string" where
  "read_after filename r = (case r of Inl e \<Rightarrow> Inl e | Inr w' \<Rightarrow> read_file filename w')"

definition written_by :: "world \<Rightarrow> io_error + world \<Rightarrow> (string \<times> string) list" where
  "written_by w r = (case r of Inl e \<Rightarrow> [] | Inr w' \<Rightarrow> drop (length (writes w)) (writes w'))"

definition printed_by :: "world \<Rightarrow> io_error + world \<Rightarrow> string list" where
  "printed_by w r = (case r of Inl e \<Rightarrow> [] | Inr w' \<Rightarrow> drop (length (console w)) (console w'))"

definition files_after :: "io_error + world \<Rightarrow> io_error + (string \<rightharpoonup> string)" where
  "files_after r = (case r of Inl e \<Rightarrow> Inl e | Inr w' \<Rightarrow> Inr (files w'))"


section \<open>Occurrences and the search primitives\<close>


lemma occurs_at_0: "occurs_at sub s 0 = prefix sub s"
  by (simp add: occurs_at_def)

lemma occurs_at_Nil: "occurs_at sub [] j \<longleftrightarrow> j = 0 \<and> sub = []"
  by (auto simp: occurs_at_def)

lemma occurs_at_Cons_Suc: "occurs_at sub (c # cs) (Suc j) = occurs_at sub cs j"
  by (simp add: occurs_at_def)

lemma occurs_at_drop: "n \<le> length s \<Longrightarrow> occurs_at sub (drop n s) j = occurs_at sub s (n + j)"
  by (auto simp: occurs_at_def add.commute)

lemma occurs_at_iff_append:
  "occurs_at sub s i \<longleftrightarrow> (\<exists>ss. s = take i s @ sub @ ss \<and> i \<le> length s)"
proof
  assume "occurs_at sub s i"
  then obtain ss where "drop i s = sub @ ss" and "i \<le> length s"
    by (auto simp: occurs_at_def prefix_def)
  then show "\<exists>ss. s = take i s @ sub @ ss \<and> i \<le> length s"
    by (metis append_take_drop_id)
next
  assume "\<exists>ss. s = take i s @ sub @ ss \<and> i \<le> length s"
  then obtain ss where h: "s = take i s @ sub @ ss" and le: "i \<le> length s" by blast
  have "drop i s = sub @ ss"
    by (metis h append_take_drop_id same_append_eq)
  with le show "occurs_at sub s i" by (simp add: occurs_at_def)
qed

lemma str_in_iff_occurs: "str_in sub s \<longleftrightarrow> (\<exists>i. occurs_at sub s i)"
proof (induction s)
  case Nil
  show ?case by (simp add: occurs_at_Nil)
next
  case (Cons c cs)
  show ?case
  proof
    assume "str_in sub (c # cs)"
    then consider "prefix sub (c # cs)" | "str_in sub cs" by auto
    then show "\<exists>i. occurs_at sub (c # cs) i"
    proof cases
      case 1
      then have "occurs_at sub (c # cs) 0" by (simp add: occurs_at_0)
      then show ?thesis ..
    next
      case 2
      with Cons.IH obtain i where "occurs_at sub cs i" by blast
      then have "occurs_at sub (c # cs) (Suc i)" by (simp add: occurs_at_Cons_Suc)
      then show ?thesis ..
    qed
  next
    assume "\<exists>i. occurs_at sub (c # cs) i"
    then obtain i where i: "occurs_at sub (c # cs) i" ..
    show "str_in sub (c # cs)"
    proof (cases i)
      case 0
      with i show ?thesis by (simp add: occurs_at_0)
    next
      case (Suc j)
      with i have "occurs_at sub cs j" by (simp add: occurs_at_Cons_Suc)
      with Cons.IH show ?thesis by auto
    qed
  qed
qed

lemma str_in_iff_sublist: "str_in sub s \<longleftrightarrow> (\<exists>ps ss. s = ps @ sub @ ss)"
proof
  assume "str_in sub s"
  then obtain i where "occurs_at sub s i" by (auto simp: str_in_iff_occurs)
  then show "\<exists>ps ss. s = ps @ sub @ ss" by (auto simp: occurs_at_iff_append)
next
  assume "\<exists>ps ss. s = ps @ sub @ ss"
  then obtain ps ss where s: "s = ps @ sub @ ss" by blast
  have "occurs_at sub s (length ps)" unfolding s by (simp add: occurs_at_def)
  then show "str_in sub s" by (auto simp: str_in_iff_occurs)
qed

lemma find_at_spec:
  "(find_at sub s i = - 1 \<and> (\<forall>j. \<not> occurs_at sub s j)) \<or>
   (\<exists>k. find_at sub s i = int (i + k) \<and> occurs_at sub s k \<and> (\<forall>j<k. \<not> occurs_at sub s j))"
proof (induction s arbitrary: i)
  case Nil
  show ?case by (auto simp: occurs_at_Nil)
next
  case (Cons c cs)
  show ?case
  proof (cases "prefix sub (c # cs)")
    case True
    then have "find_at sub (c # cs) i = int (i + 0) \<and> occurs_at sub (c # cs) 0
        \<and> (\<forall>j<0. \<not> occurs_at sub (c # cs) j)"
      by (simp add: occurs_at_0)
    then show ?thesis by blast
  next
    case False
    then have step: "find_at sub (c # cs) i = find_at sub cs (Suc i)" by simp
    from Cons.IH [of "Suc i"] show ?thesis
    proof
      assume a: "find_at sub cs (Suc i) = - 1 \<and> (\<forall>j. \<not> occurs_at sub cs j)"
      have "\<not> occurs_at sub (c # cs) j" for j
        using a False by (cases j) (simp_all add: occurs_at_0 occurs_at_Cons_Suc)
      with a step show ?thesis by simp
    next
      assume "\<exists>k. find_at sub cs (Suc i) = int (Suc i + k) \<and> occurs_at sub cs k
                 \<and> (\<forall>j<k. \<not> occurs_at sub cs j)"
      then obtain k where k: "find_at sub cs (Suc i) = int (Suc i + k)" "occurs_at sub cs k"
        "\<forall>j<k. \<not> occurs_at sub cs j" by blast
      have "\<not> occurs_at sub (c # cs) j" if "j < Suc k" for j
        using that k(3) False by (cases j) (simp_all add: occurs_at_0 occurs_at_Cons_Suc)
      with k step have "find_at sub (c # cs) i = int (i + Suc k) \<and> occurs_at sub (c # cs) (Suc k)
        \<and> (\<forall>j<Suc k. \<not> occurs_at sub (c # cs) j)"
        by (simp add: occurs_at_Cons_Suc)
      then show ?thesis by blast
    qed
  qed
qed

lemma py_find_spec:
  "(py_find s sub start = - 1 \<and> (\<forall>j\<ge>start. \<not> occurs_at sub s j)) \<or>
   (\<exists>i. py_find s sub start = int i \<and> start \<le> i \<and> occurs_at sub s i
        \<and> (\<forall>j. start \<le> j \<and> j < i \<longrightarrow> \<not> occurs_at sub s j))"
proof (cases "length s < start")
  case True
  then show ?thesis by (auto simp: py_find_def occurs_at_def)
next
  case False
  then have le: "start \<le> length s" by simp
  have shift: "occurs_at sub (drop start s) j = occurs_at sub s (start + j)" for j
    using le by (rule occurs_at_drop)
  have eq: "py_find s sub start = find_at sub (drop start s) start"
    using False by (simp add: py_find_def)
  from find_at_spec [of sub "drop start s" start] show ?thesis
  proof
    assume a: "find_at sub (drop start s) start = - 1 \<and> (\<forall>j. \<not> occurs_at sub (drop start s) j)"
    have "\<not> occurs_at sub s j" if "start \<le> j" for j
    proof -
      from that have "j = start + (j - start)" by simp
      with a shift [of "j - start"] show ?thesis by metis
    qed
    with a eq show ?thesis by simp
  next
    assume "\<exists>k. find_at sub (drop start s) start = int (start + k)
               \<and> occurs_at sub (drop start s) k \<and> (\<forall>j<k. \<not> occurs_at sub (drop start s) j)"
    then obtain k where k: "find_at sub (drop start s) start = int (start + k)"
      "occurs_at sub (drop start s) k" "\<forall>j<k. \<not> occurs_at sub (drop start s) j" by blast
    have "\<not> occurs_at sub s j" if "start \<le> j" "j < start + k" for j
    proof -
      from that have "j = start + (j - start)" "j - start < k" by simp_all
      with k(3) shift [of "j - start"] show ?thesis by metis
    qed
    with k eq shift [of k]
    have "py_find s sub start = int (start + k) \<and> start \<le> start + k \<and> occurs_at sub s (start + k)
        \<and> (\<forall>j. start \<le> j \<and> j < start + k \<longrightarrow> \<not> occurs_at sub s j)"
      by simp
    then show ?thesis by blast
  qed
qed

lemma py_find_neg_iff: "py_find s sub start < 0 \<longleftrightarrow> (\<forall>j\<ge>start. \<not> occurs_at sub s j)"
  using py_find_spec [of s sub start] by auto

lemma py_find_first:
  assumes "start \<le> i" "occurs_at sub s i" "\<forall>j. start \<le> j \<and> j < i \<longrightarrow> \<not> occurs_at sub s j"
  shows "py_find s sub start = int i"
proof -
  from py_find_spec [of s sub start] assms obtain i' where
    i': "py_find s sub start = int i'" "start \<le> i'" "occurs_at sub s i'"
        "\<forall>j. start \<le> j \<and> j < i' \<longrightarrow> \<not> occurs_at sub s j"
    by blast
  have "i' = i"
  proof (rule ccontr)
    assume "i' \<noteq> i"
    then consider "i' < i" | "i < i'" by linarith
    then show False using assms i' by cases blast+
  qed
  with i' show ?thesis by simp
qed

lemma py_find_absent_iff: "py_find s sub 0 < 0 \<longleftrightarrow> \<not> str_in sub s"
  by (simp add: py_find_neg_iff str_in_iff_occurs)

lemma first_at_py_find: "first_at sub s start i \<longleftrightarrow> py_find s sub start = int i"
proof
  assume "first_at sub s start i"
  then show "py_find s sub start = int i"
    by (intro py_find_first) (auto simp: first_at_def)
next
  assume a: "py_find s sub start = int i"
  with py_find_spec [of s sub start] show "first_at sub s start i"
    by (auto simp: first_at_def)
qed

lemma py_find_cases:
  obtains (absent) "py_find s sub start = - 1" "\<forall>j\<ge>start. \<not> occurs_at sub s j"
  | (found) i where "py_find s sub start = int i" "first_at sub s start i"
  using py_find_spec [of s sub start] first_at_py_find by blast

lemma add_trace_unfold:
  assumes "read_file filename w = Inr C"
  shows "add_trace filename func_sig label w =
    (if str_in (trace_statement label) C then Inr w
     else if py_find C func_sig 0 < 0 then
       Inr (print (''  WARNING: '' @ [CHR 0x27] @ take 60 func_sig @ ''...''
                          @ [CHR 0x27] @ '' not found in '' @ filename) w)
     else if py_find C ''{'' (nat (py_find C func_sig 0)) < 0 then Inr w
     else if py_find C [CHR 0x0A] (nat (py_find C ''{'' (nat (py_find C func_sig 0)))) < 0 then Inr w
     else Inr (print (''  Instrumented '' @ label @ '' in '' @ filename)
            (write_file filename
               (take (nat (py_find C [CHR 0x0A] (nat (py_find C ''{'' (nat (py_find C func_sig 0)))) + 1)) C
                @ trace_statement label
                @ drop (nat (py_find C [CHR 0x0A] (nat (py_find C ''{'' (nat (py_find C func_sig 0)))) + 1)) C) w)))"
  using assms
  by (simp add: add_trace_def trace_statement_def Let_def slice_to_def slice_from_def
      eval_nat_numeral)

lemma add_trace_before_unfold:
  assumes "read_file filename w = Inr C"
  shows "add_trace_before filename code_marker label w =
    (if str_in (trace_statement label) C then Inr w
     else if py_find C code_marker 0 < 0 then
       Inr (print (''  WARNING before: '' @ [CHR 0x27] @ take 60 code_marker @ ''...''
                          @ [CHR 0x27] @ '' not found in '' @ filename) w)
     else Inr (print (''  Instrumented '' @ label @ '' (before) in '' @ filename)
            (write_file filename
               (take (nat (if py_rfind C [CHR 0x0A] (nat (py_find C code_marker 0)) < 0 then 0
                           else py_rfind C [CHR 0x0A] (nat (py_find C code_marker 0)) + 1)) C
                @ trace_statement label
                @ drop (nat (if py_rfind C [CHR 0x0A] (nat (py_find C code_marker 0)) < 0 then 0
                           else py_rfind C [CHR 0x0A] (nat (py_find C code_marker 0)) + 1)) C) w)))"
  using assms
  by (simp add: add_trace_before_def trace_statement_def Let_def slice_to_def
      slice_from_def eval_nat_numeral)

lemma occurs_at_single: "occurs_at [c] s j \<longleftrightarrow> j < length s \<and> s ! j = c"
proof (cases "j < length s")
  case True
  then have "drop j s = s ! j # drop (Suc j) s" by (simp add: Cons_nth_drop_Suc)
  with True show ?thesis by (auto simp: occurs_at_def)
next
  case False
  then show ?thesis by (simp add: occurs_at_def)
qed

lemma rfind_at_spec:
  "(rfind_at sub s i found = found \<and> (\<forall>j. \<not> occurs_at sub s j)) \<or>
   (\<exists>k. rfind_at sub s i found = int (i + k) \<and> occurs_at sub s k \<and> (\<forall>j>k. \<not> occurs_at sub s j))"
proof (induction s arbitrary: i found)
  case Nil
  show ?case by (auto simp: occurs_at_Nil)
next
  case (Cons c cs)
  let ?f = "if prefix sub (c # cs) then int i else found"
  have step: "rfind_at sub (c # cs) i found = rfind_at sub cs (Suc i) ?f" by simp
  from Cons.IH [of "Suc i" ?f] show ?case
  proof
    assume a: "rfind_at sub cs (Suc i) ?f = ?f \<and> (\<forall>j. \<not> occurs_at sub cs j)"
    show ?thesis
    proof (cases "prefix sub (c # cs)")
      case True
      have "\<not> occurs_at sub (c # cs) j" if "0 < j" for j
        using that a by (cases j) (simp_all add: occurs_at_Cons_Suc)
      with a step True
      have "rfind_at sub (c # cs) i found = int (i + 0) \<and> occurs_at sub (c # cs) 0
          \<and> (\<forall>j>0. \<not> occurs_at sub (c # cs) j)"
        by (simp add: occurs_at_0)
      then show ?thesis by blast
    next
      case False
      have "\<not> occurs_at sub (c # cs) j" for j
        using a False by (cases j) (simp_all add: occurs_at_0 occurs_at_Cons_Suc)
      with a step False show ?thesis by simp
    qed
  next
    assume "\<exists>k. rfind_at sub cs (Suc i) ?f = int (Suc i + k) \<and> occurs_at sub cs k
               \<and> (\<forall>j>k. \<not> occurs_at sub cs j)"
    then obtain k where k: "rfind_at sub cs (Suc i) ?f = int (Suc i + k)" "occurs_at sub cs k"
      "\<forall>j>k. \<not> occurs_at sub cs j" by blast
    have "\<not> occurs_at sub (c # cs) j" if "Suc k < j" for j
      using that k(3) by (cases j) (simp_all add: occurs_at_Cons_Suc)
    with k step
    have "rfind_at sub (c # cs) i found = int (i + Suc k) \<and> occurs_at sub (c # cs) (Suc k)
        \<and> (\<forall>j>Suc k. \<not> occurs_at sub (c # cs) j)"
      by (simp add: occurs_at_Cons_Suc)
    then show ?thesis by blast
  qed
qed

lemma py_rfind_char_cases:
  assumes "i \<le> length s"
  obtains (absent) "py_rfind s [c] i = - 1" "\<forall>j<i. s ! j \<noteq> c"
  | (found) k where "py_rfind s [c] i = int k" "k < i" "s ! k = c" "\<forall>j. k < j \<and> j < i \<longrightarrow> s ! j \<noteq> c"
proof -
  have occ: "occurs_at [c] (take i s) j \<longleftrightarrow> j < i \<and> s ! j = c" for j
    using assms by (auto simp: occurs_at_single)
  from rfind_at_spec [of "[c]" "take i s" 0 "- 1"] show thesis
  proof
    assume "rfind_at [c] (take i s) 0 (- 1) = - 1 \<and> (\<forall>j. \<not> occurs_at [c] (take i s) j)"
    then show thesis using occ by (intro absent) (auto simp: py_rfind_def)
  next
    assume "\<exists>k. rfind_at [c] (take i s) 0 (- 1) = int (0 + k) \<and> occurs_at [c] (take i s) k
                \<and> (\<forall>j>k. \<not> occurs_at [c] (take i s) j)"
    then obtain k where "rfind_at [c] (take i s) 0 (- 1) = int k" "occurs_at [c] (take i s) k"
      "\<forall>j>k. \<not> occurs_at [c] (take i s) j" by auto
    then show thesis using occ by (intro found [of k]) (auto simp: py_rfind_def)
  qed
qed

lemma notin_set_slice:
  assumes "i \<le> length s" "\<forall>j. p \<le> j \<and> j < i \<longrightarrow> s ! j \<noteq> c"
  shows "c \<notin> set (take (i - p) (drop p s))"
proof
  assume "c \<in> set (take (i - p) (drop p s))"
  then obtain k where k: "k < length (take (i - p) (drop p s))" "take (i - p) (drop p s) ! k = c"
    by (auto simp: in_set_conv_nth)
  then have "k < i - p" "p + k < length s" by auto
  with k have "s ! (p + k) = c" by simp
  with assms(2) \<open>k < i - p\<close> show False by auto
qed

lemma in_set_slice:
  assumes "i \<le> length s" "p \<le> j" "j < i"
  shows "s ! j \<in> set (take (i - p) (drop p s))"
proof -
  have "j - p < length (take (i - p) (drop p s))" using assms by auto
  moreover have "take (i - p) (drop p s) ! (j - p) = s ! j" using assms by simp
  ultimately show ?thesis by (metis nth_mem)
qed

lemma line_start_of_rfind:
  assumes "i \<le> length s"
  shows "line_start_of s i (nat (if py_rfind s [CHR 0x0A] i < 0 then 0 else py_rfind s [CHR 0x0A] i + 1))"
  using assms
proof (cases rule: py_rfind_char_cases [of i s "CHR 0x0A"])
  case absent
  then have "CHR 0x0A \<notin> set (take (i - 0) (drop 0 s))"
    using assms by (intro notin_set_slice) auto
  with absent assms show ?thesis by (simp add: line_start_of_def)
next
  case (found k)
  then have "CHR 0x0A \<notin> set (take (i - Suc k) (drop (Suc k) s))"
    using assms by (intro notin_set_slice) auto
  moreover have "nat (int k + 1) = Suc k" by simp
  ultimately show ?thesis using found assms by (simp add: line_start_of_def)
qed

lemma line_start_of_unique:
  assumes "line_start_of s i p" "line_start_of s i q"
  shows "p = q"
proof -
  have aux: False if a: "line_start_of s i p'" and b: "line_start_of s i q'" and lt: "p' < q'"
    for p' q'
  proof -
    from b lt have nl: "s ! (q' - 1) = CHR 0x0A" and "q' \<le> i" "i \<le> length s"
      by (auto simp: line_start_of_def)
    then have "s ! (q' - 1) \<in> set (take (i - p') (drop p' s))"
      using lt by (intro in_set_slice) auto
    with nl a show False by (simp add: line_start_of_def)
  qed
  show ?thesis
  proof (rule ccontr)
    assume "p \<noteq> q"
    then consider "p < q" | "q < p" by linarith
    then show False using aux assms by cases blast+
  qed
qed

lemma first_at_unique: "first_at sub s start i \<Longrightarrow> first_at sub s start j \<Longrightarrow> i = j"
  by (simp add: first_at_py_find)

lemma first_at_str_in: "first_at sub s 0 i \<Longrightarrow> str_in sub s"
  by (auto simp: first_at_def str_in_iff_occurs)

lemma occurs_at_le: "occurs_at sub s i \<Longrightarrow> i \<le> length s"
  by (simp add: occurs_at_def)

section \<open>The outcomes of the two operations\<close>

lemma add_trace_cases:
  assumes "read_file filename w = Inr C"
  obtains (present) "str_in (trace_statement label) C" "add_trace filename func_sig label w = Inr w"
  | (not_found) "\<not> str_in (trace_statement label) C" "\<not> str_in func_sig C"
      "add_trace filename func_sig label w =
         Inr (print (''  WARNING: '' @ [CHR 0x27] @ take 60 func_sig @ ''...''
                          @ [CHR 0x27] @ '' not found in '' @ filename) w)"
  | (no_brace) i where "\<not> str_in (trace_statement label) C" "first_at func_sig C 0 i"
      "\<forall>j\<ge>i. \<not> occurs_at ''{'' C j" "add_trace filename func_sig label w = Inr w"
  | (no_newline) i b where "\<not> str_in (trace_statement label) C" "first_at func_sig C 0 i"
      "first_at ''{'' C i b" "\<forall>j\<ge>b. \<not> occurs_at [CHR 0x0A] C j"
      "add_trace filename func_sig label w = Inr w"
  | (inserted) i b n where "\<not> str_in (trace_statement label) C" "first_at func_sig C 0 i"
      "first_at ''{'' C i b" "first_at [CHR 0x0A] C b n"
      "add_trace filename func_sig label w =
         Inr (print (''  Instrumented '' @ label @ '' in '' @ filename)
               (write_file filename (take (Suc n) C @ trace_statement label @ drop (Suc n) C) w))"
proof (cases "str_in (trace_statement label) C")
  case True
  then show thesis using assms by (intro present) (simp_all add: add_trace_unfold)
next
  case absent: False
  show thesis
  proof (cases rule: py_find_cases [of C func_sig 0])
    case absent
    then have "\<not> str_in func_sig C" by (simp add: str_in_iff_occurs)
    with absent \<open>\<not> str_in (trace_statement label) C\<close> show thesis
      using assms by (intro not_found) (simp_all add: add_trace_unfold)
  next
    case key: (found i)
    show thesis
    proof (cases rule: py_find_cases [of C "''{''" i])
      case absent
      with key \<open>\<not> str_in (trace_statement label) C\<close> show thesis
        using assms by (intro no_brace [of i]) (simp_all add: add_trace_unfold)
    next
      case brace: (found b)
      show thesis
      proof (cases rule: py_find_cases [of C "[CHR 0x0A]" b])
        case absent
        with key brace \<open>\<not> str_in (trace_statement label) C\<close> show thesis
          using assms by (intro no_newline [of i b]) (simp_all add: add_trace_unfold)
      next
        case (found n)
        moreover have "nat (int n + 1) = Suc n" by simp
        ultimately show thesis
          using key brace \<open>\<not> str_in (trace_statement label) C\<close> assms
          by (intro inserted [of i b n]) (simp_all add: add_trace_unfold)
      qed
    qed
  qed
qed

lemma add_trace_before_cases:
  assumes "read_file filename w = Inr C"
  obtains (present) "str_in (trace_statement label) C"
      "add_trace_before filename code_marker label w = Inr w"
  | (not_found) "\<not> str_in (trace_statement label) C" "\<not> str_in code_marker C"
      "add_trace_before filename code_marker label w =
         Inr (print (''  WARNING before: '' @ [CHR 0x27] @ take 60 code_marker @ ''...''
                          @ [CHR 0x27] @ '' not found in '' @ filename) w)"
  | (inserted) i p where "\<not> str_in (trace_statement label) C" "first_at code_marker C 0 i"
      "line_start_of C i p"
      "add_trace_before filename code_marker label w =
         Inr (print (''  Instrumented '' @ label @ '' (before) in '' @ filename)
               (write_file filename (take p C @ trace_statement label @ drop p C) w))"
proof (cases "str_in (trace_statement label) C")
  case True
  then show thesis using assms by (intro present) (simp_all add: add_trace_before_unfold)
next
  case absent: False
  show thesis
  proof (cases rule: py_find_cases [of C code_marker 0])
    case absent
    then have "\<not> str_in code_marker C" by (simp add: str_in_iff_occurs)
    with absent \<open>\<not> str_in (trace_statement label) C\<close> show thesis
      using assms by (intro not_found) (simp_all add: add_trace_before_unfold)
  next
    case (found i)
    then have "i \<le> length C" by (auto simp: first_at_def dest: occurs_at_le)
    then have ls: "line_start_of C i
        (nat (if py_rfind C [CHR 0x0A] i < 0 then 0 else py_rfind C [CHR 0x0A] i + 1))"
      by (rule line_start_of_rfind)
    show thesis
      using found ls \<open>\<not> str_in (trace_statement label) C\<close> assms
      by (intro inserted [OF _ _ ls]) (simp_all add: add_trace_before_unfold)
  qed
qed

section \<open>Reading the outcomes\<close>

lemma trace_statement_eq:
  \<open>trace_statement label =
     ''    fprintf(stderr, ">>> '' @ label @ [CHR 0x5C] @ ''n");'' @ [CHR 0x0A]\<close>
  by (simp add: trace_statement_def eval_nat_numeral)

lemma files_print [simp]: "files (print m w) = files w"
  and writes_print [simp]: "writes (print m w) = writes w"
  and console_print [simp]: "console (print m w) = console w @ [m]"
  by (simp_all add: print_def)

lemma files_write_file [simp]: "files (write_file f c w) = (files w)(f \<mapsto> c)"
  and writes_write_file [simp]: "writes (write_file f c w) = writes w @ [(f, c)]"
  and console_write_file [simp]: "console (write_file f c w) = console w"
  by (simp_all add: write_file_def)

lemma add_trace_read_error:
  "read_file filename w = Inl e \<Longrightarrow> add_trace filename func_sig label w = Inl e"
  by (simp add: add_trace_def)

lemma add_trace_before_read_error:
  "read_file filename w = Inl e \<Longrightarrow> add_trace_before filename code_marker label w = Inl e"
  by (simp add: add_trace_before_def)


lemma str_in_splice: "str_in t (take p s @ t @ drop p s)"
  unfolding str_in_iff_sublist by blast



section \<open>The no-op outcomes\<close>


text \<open>
  Claim C2 (no-op on locate failure). When the locate key does not occur in the content of
  the file, and the trace statement is not already there, either mode leaves the content
  exactly as it was (reading the file again gives the same text, and the stored text of
  this and of every other file is untouched) and performs no write.
\<close>
theorem absent_key_leaves_file:
  assumes "read_file filename w = Inr C"
    and "\<not> str_in key C"
    and "\<not> str_in (trace_statement label) C"
  shows "read_after filename (add_trace filename key label w) = Inr C
       \<and> files_after (add_trace filename key label w) = Inr (files w)
       \<and> written_by w (add_trace filename key label w) = []
       \<and> read_after filename (add_trace_before filename key label w) = Inr C
       \<and> files_after (add_trace_before filename key label w) = Inr (files w)
       \<and> written_by w (add_trace_before filename key label w) = []"
  using assms
  by (simp add: add_trace_unfold add_trace_before_unfold py_find_absent_iff
      read_after_def read_file_def files_after_def written_by_def)

theorem absent_key_leaves_file_witness:
  "read_file ''out.cpp'' \<lparr>files = [''out.cpp'' \<mapsto> ''a();''], writes = [], console = []\<rparr> = Inr ''a();''
   \<and> \<not> str_in ''missing'' ''a();''
   \<and> \<not> str_in (trace_statement ''X'') ''a();''
   \<and> read_after ''out.cpp''
        (add_trace ''out.cpp'' ''missing'' ''X''
           \<lparr>files = [''out.cpp'' \<mapsto> ''a();''], writes = [], console = []\<rparr>) = Inr ''a();''
   \<and> written_by \<lparr>files = [''out.cpp'' \<mapsto> ''a();''], writes = [], console = []\<rparr>
        (add_trace_before ''out.cpp'' ''missing'' ''X''
           \<lparr>files = [''out.cpp'' \<mapsto> ''a();''], writes = [], console = []\<rparr>) = []"
  using absent_key_leaves_file
    [of "''out.cpp''"
        "\<lparr>files = [''out.cpp'' \<mapsto> ''a();''], writes = [], console = []\<rparr>" "''a();''" "''missing''" "''X''"]
  by (simp add: read_file_def trace_statement_eq)

text \<open>
  Claim C8 (already instrumented). When the trace statement for the label is already a
  substring of the content, either mode returns the world as it found it: the content is
  unchanged, nothing is written and nothing is printed, whatever the locate key is; the
  instance below takes a key that is absent from the content.
\<close>
theorem already_present_is_silent_noop:
  assumes "read_file filename w = Inr C"
    and "str_in (trace_statement label) C"
  shows "add_trace filename key label w = Inr w
       \<and> add_trace_before filename key label w = Inr w
       \<and> written_by w (add_trace filename key label w) = []
       \<and> printed_by w (add_trace filename key label w) = []
       \<and> written_by w (add_trace_before filename key label w) = []
       \<and> printed_by w (add_trace_before filename key label w) = []"
  using assms
  by (simp add: add_trace_unfold add_trace_before_unfold written_by_def printed_by_def)

theorem already_present_is_silent_noop_witness:
  "read_file ''out.cpp'' \<lparr>files = [''out.cpp'' \<mapsto> trace_statement ''X''], writes = [], console = []\<rparr>
     = Inr (trace_statement ''X'')
   \<and> str_in (trace_statement ''X'') (trace_statement ''X'')
   \<and> \<not> str_in ''missing'' (trace_statement ''X'')
   \<and> add_trace ''out.cpp'' ''missing'' ''X''
        \<lparr>files = [''out.cpp'' \<mapsto> trace_statement ''X''], writes = [], console = []\<rparr>
      = Inr \<lparr>files = [''out.cpp'' \<mapsto> trace_statement ''X''], writes = [], console = []\<rparr>
   \<and> add_trace_before ''out.cpp'' ''missing'' ''X''
        \<lparr>files = [''out.cpp'' \<mapsto> trace_statement ''X''], writes = [], console = []\<rparr>
      = Inr \<lparr>files = [''out.cpp'' \<mapsto> trace_statement ''X''], writes = [], console = []\<rparr>"
  using already_present_is_silent_noop
    [of "''out.cpp''"
        "\<lparr>files = [''out.cpp'' \<mapsto> trace_statement ''X''], writes = [], console = []\<rparr>" "trace_statement ''X''" "''X''" "''missing''"]
  by (simp add: read_file_def trace_statement_eq)

section \<open>A locate key that holds a brace\<close>

lemma nat_int_add: "nat (int n + 1) = Suc n"
  by simp

lemma occurs_at_nth:
  assumes "occurs_at sub s i" "j < length sub"
  shows "i + j < length s \<and> s ! (i + j) = sub ! j"
proof -
  from assms(1) obtain ss where d: "drop i s = sub @ ss" and le: "i \<le> length s"
    by (auto simp: occurs_at_def prefix_def)
  have "length (drop i s) = length sub + length ss" by (simp add: d)
  with assms(2) have lt: "i + j < length s" by simp
  then have "s ! (i + j) = drop i s ! j" by simp
  also have "\<dots> = sub ! j" using assms(2) by (simp add: d nth_append)
  finally show ?thesis using lt by simp
qed

lemma first_brace_in_key:
  assumes "occurs_at key C i" "c \<in> set key"
  shows "first_at [c] C i (i + length (takeWhile (\<lambda>x. x \<noteq> c) key))
       \<and> length (takeWhile (\<lambda>x. x \<noteq> c) key) < length key"
proof -
  let ?k = "length (takeWhile (\<lambda>x. x \<noteq> c) key)"
  have "takeWhile (\<lambda>x. x \<noteq> c) key \<noteq> key"
    using assms(2) by (auto simp: takeWhile_eq_all_conv)
  moreover have "?k \<le> length key" by (rule length_takeWhile_le)
  ultimately have klt: "?k < length key"
    by (metis takeWhile_eq_take take_all_iff order_less_le)
  then have "\<not> (key ! ?k \<noteq> c)" by (rule nth_length_takeWhile)
  then have at: "key ! ?k = c" by simp
  from occurs_at_nth [OF assms(1) klt] at have occ: "occurs_at [c] C (i + ?k)"
    by (simp add: occurs_at_single)
  have "\<not> occurs_at [c] C j" if "j \<in> set [i..<i + ?k]" for j
  proof -
    from that have j: "i \<le> j" "j - i < ?k" by auto
    then have "takeWhile (\<lambda>x. x \<noteq> c) key ! (j - i) = key ! (j - i)" by (simp add: takeWhile_nth)
    moreover have "takeWhile (\<lambda>x. x \<noteq> c) key ! (j - i) \<in> set (takeWhile (\<lambda>x. x \<noteq> c) key)"
      using j by simp
    ultimately have "key ! (j - i) \<noteq> c" by (metis set_takeWhileD)
    moreover from j klt have "j - i < length key" by simp
    ultimately have "C ! (i + (j - i)) \<noteq> c" using occurs_at_nth [OF assms(1)] by simp
    with j show ?thesis by (simp add: occurs_at_single)
  qed
  with occ klt show ?thesis by (simp add: first_at_def)
qed

lemma add_trace_splice:
  assumes "read_file filename w = Inr C"
    and "\<not> str_in (trace_statement label) C"
    and "first_at key C 0 i"
    and "first_at ''{'' C i b"
    and "first_at [CHR 0x0A] C b n"
  shows "add_trace filename key label w =
           Inr (print (''  Instrumented '' @ label @ '' in '' @ filename)
                 (write_file filename (take (Suc n) C @ trace_statement label @ drop (Suc n) C) w))"
  using assms by (simp add: add_trace_unfold first_at_py_find nat_int_add)

text \<open>
  Claim C10 (the brace scan starts at the match start). The search for the opening brace
  starts at the first character of the matched key, so for a key that itself contains an
  opening brace the brace selected is the first one inside the matched text (at the offset
  of the first brace of the key), and the trace statement goes after the first newline at
  or after that brace. In the instance below a scan from the end of the match would have
  selected the brace of the last line instead.
\<close>
theorem brace_scan_starts_at_match_start:
  assumes "read_file filename w = Inr C"
    and "\<not> str_in (trace_statement label) C"
    and "first_at key C 0 i"
    and "CHR ''{'' \<in> set key"
    and "first_at [CHR 0x0A] C (i + length (takeWhile (\<lambda>x. x \<noteq> CHR ''{'') key)) n"
  shows "py_find C ''{'' (nat (py_find C key 0))
           = int (i + length (takeWhile (\<lambda>x. x \<noteq> CHR ''{'') key))
       \<and> i + length (takeWhile (\<lambda>x. x \<noteq> CHR ''{'') key) < i + length key
       \<and> content_after filename (add_trace filename key label w)
           = Some (take (Suc n) C @ trace_statement label @ drop (Suc n) C)"
proof -
  let ?k = "length (takeWhile (\<lambda>x. x \<noteq> CHR ''{'') key)"
  from assms(3) have occ: "occurs_at key C i" by (simp add: first_at_def)
  from assms(3) have idx: "py_find C key 0 = int i" by (simp add: first_at_py_find)
  from first_brace_in_key [OF occ assms(4)]
  have b: "first_at ''{'' C i (i + ?k)" and lt: "?k < length key" by simp_all
  from b idx have "py_find C ''{'' (nat (py_find C key 0)) = int (i + ?k)"
    by (simp add: first_at_py_find)
  moreover have "content_after filename (add_trace filename key label w)
           = Some (take (Suc n) C @ trace_statement label @ drop (Suc n) C)"
    by (simp add: add_trace_splice [OF assms(1,2,3) b assms(5)] content_after_def)
  ultimately show ?thesis using lt by simp
qed

theorem brace_scan_starts_at_match_start_witness:
  \<open>read_file ''h.cpp'' \<lparr>files = [''h.cpp'' \<mapsto> ''f{}'' @ [CHR 0x0A] @ ''{'' @ [CHR 0x0A]],
          writes = [], console = []\<rparr>
     = Inr (''f{}'' @ [CHR 0x0A] @ ''{'' @ [CHR 0x0A])
   \<and> \<not> str_in (trace_statement ''Z'') (''f{}'' @ [CHR 0x0A] @ ''{'' @ [CHR 0x0A])
   \<and> first_at ''f{}'' (''f{}'' @ [CHR 0x0A] @ ''{'' @ [CHR 0x0A]) 0 0
   \<and> CHR ''{'' \<in> set ''f{}''
   \<and> first_at [CHR 0x0A] (''f{}'' @ [CHR 0x0A] @ ''{'' @ [CHR 0x0A]) 1 3
   \<and> py_find (''f{}'' @ [CHR 0x0A] @ ''{'' @ [CHR 0x0A]) ''{''
        (nat (py_find (''f{}'' @ [CHR 0x0A] @ ''{'' @ [CHR 0x0A]) ''f{}'' 0)) = 1
   \<and> content_after ''h.cpp''
        (add_trace ''h.cpp'' ''f{}'' ''Z''
           \<lparr>files = [''h.cpp'' \<mapsto> ''f{}'' @ [CHR 0x0A] @ ''{'' @ [CHR 0x0A]],
            writes = [], console = []\<rparr>)
      = Some (''f{}'' @ [CHR 0x0A] @ ''    fprintf(stderr, ">>> Z'' @ [CHR 0x5C] @ ''n");''
              @ [CHR 0x0A] @ ''{'' @ [CHR 0x0A])\<close>
  using brace_scan_starts_at_match_start
    [of "''h.cpp''"
        "\<lparr>files = [''h.cpp'' \<mapsto> ''f{}'' @ [CHR 0x0A] @ ''{'' @ [CHR 0x0A]],
          writes = [], console = []\<rparr>" "''f{}'' @ [CHR 0x0A] @ ''{'' @ [CHR 0x0A]" "''Z''" "''f{}''" 0 3]
  by (simp add: read_file_def trace_statement_eq first_at_def occurs_at_def atLeastLessThan_nat_numeral)

section \<open>One splice\<close>

lemma first_at_lt_length: "first_at [c] s start i \<Longrightarrow> i < length s"
  by (simp add: first_at_def occurs_at_single)

lemma add_trace_written:
  assumes "read_file filename w = Inr C"
    and "written_by w (add_trace filename key label w) \<noteq> []"
  obtains p where "p \<le> length C" "\<not> str_in (trace_statement label) C" "str_in key C"
    "add_trace filename key label w =
       Inr (print (''  Instrumented '' @ label @ '' in '' @ filename)
             (write_file filename (take p C @ trace_statement label @ drop p C) w))"
  using assms(1)
proof (cases rule: add_trace_cases [of filename w C label key])
  case (inserted i b n)
  from inserted(4) have "Suc n \<le> length C" using first_at_lt_length by fastforce
  moreover from inserted(2) have "str_in key C" by (rule first_at_str_in)
  ultimately show ?thesis using inserted that by blast
qed (use assms(2) in \<open>simp_all add: written_by_def\<close>)

lemma add_trace_before_written:
  assumes "read_file filename w = Inr C"
    and "written_by w (add_trace_before filename key label w) \<noteq> []"
  obtains p where "p \<le> length C" "\<not> str_in (trace_statement label) C" "str_in key C"
    "add_trace_before filename key label w =
       Inr (print (''  Instrumented '' @ label @ '' (before) in '' @ filename)
             (write_file filename (take p C @ trace_statement label @ drop p C) w))"
  using assms(1)
proof (cases rule: add_trace_before_cases [of filename w C label key])
  case (inserted i p)
  then have "p \<le> length C" by (simp add: line_start_of_def)
  moreover from inserted(2) have "str_in key C" by (rule first_at_str_in)
  ultimately show ?thesis using inserted that by blast
qed (use assms(2) in \<open>simp_all add: written_by_def\<close>)

lemma line_count_append: "line_count (a @ b) = line_count a + line_count b"
  by (simp add: line_count_def)

lemma line_count_trace_statement: "line_count (trace_statement label) = 1 + line_count label"
  by (simp add: trace_statement_eq line_count_def)

lemma line_count_splice:
  "line_count (take p s @ t @ drop p s) = line_count s + line_count t"
proof -
  have "line_count s = line_count (take p s @ drop p s)" by simp
  then show ?thesis by (simp add: line_count_append del: append_take_drop_id)
qed

text \<open>
  Claim C5 (single splice), as stated, promises exactly one more line whenever an
  insertion occurs. The label is pasted into the trace statement as it is, so a label
  that holds a newline makes the splice longer than one line: with the label
  \<open>a\<close>, newline, \<open>b\<close> the content \<open>{\<close>, newline, gains two lines.
\<close>
theorem one_more_line_counterexample:
  \<open>written_by \<lparr>files = [''f.cpp'' \<mapsto> ''{'' @ [CHR 0x0A]], writes = [], console = []\<rparr>
     (add_trace ''f.cpp'' ''{'' (''a'' @ [CHR 0x0A] @ ''b'')
        \<lparr>files = [''f.cpp'' \<mapsto> ''{'' @ [CHR 0x0A]], writes = [], console = []\<rparr>)
     = [(''f.cpp'', ''{'' @ [CHR 0x0A] @ ''    fprintf(stderr, ">>> a'' @ [CHR 0x0A] @ ''b''
                     @ [CHR 0x5C] @ ''n");'' @ [CHR 0x0A])]
   \<and> line_count (''{'' @ [CHR 0x0A] @ ''    fprintf(stderr, ">>> a'' @ [CHR 0x0A] @ ''b''
                     @ [CHR 0x5C] @ ''n");'' @ [CHR 0x0A])
     \<noteq> line_count (''{'' @ [CHR 0x0A]) + 1\<close>
  by (simp add: add_trace_def read_file_def Let_def py_find_def slice_to_def slice_from_def
      write_file_def print_def written_by_def line_count_def)

text \<open>
  Claim C5, amended. Whenever an insertion occurs, in either mode, the content written is
  \<open>C[:p] + T + C[p:]\<close> for one insertion point \<open>p\<close> and the trace statement \<open>T\<close>, which ends
  in a newline; what comes before and after \<open>p\<close> is unchanged and contiguous, that one
  write is the only one, and the result has \<open>1 +\<close> (the number of newlines of the label)
  more lines than \<open>C\<close>: exactly one more when the label holds no newline.
\<close>
theorem insertion_is_one_splice:
  assumes "read_file filename w = Inr C"
  shows "(written_by w (add_trace filename key label w) \<noteq> [] \<longrightarrow>
            (\<exists>p\<le>length C.
               content_after filename (add_trace filename key label w)
                 = Some (take p C @ trace_statement label @ drop p C)
             \<and> written_by w (add_trace filename key label w)
                 = [(filename, take p C @ trace_statement label @ drop p C)]
             \<and> line_count (take p C @ trace_statement label @ drop p C)
                 = line_count C + 1 + line_count label))
       \<and> (written_by w (add_trace_before filename key label w) \<noteq> [] \<longrightarrow>
            (\<exists>p\<le>length C.
               content_after filename (add_trace_before filename key label w)
                 = Some (take p C @ trace_statement label @ drop p C)
             \<and> written_by w (add_trace_before filename key label w)
                 = [(filename, take p C @ trace_statement label @ drop p C)]
             \<and> line_count (take p C @ trace_statement label @ drop p C)
                 = line_count C + 1 + line_count label))
       \<and> last (trace_statement label) = CHR 0x0A"
proof (intro conjI impI)
  assume "written_by w (add_trace filename key label w) \<noteq> []"
  with assms obtain p where "p \<le> length C"
    "add_trace filename key label w =
       Inr (print (''  Instrumented '' @ label @ '' in '' @ filename)
             (write_file filename (take p C @ trace_statement label @ drop p C) w))"
    by (rule add_trace_written)
  then show "\<exists>p\<le>length C.
               content_after filename (add_trace filename key label w)
                 = Some (take p C @ trace_statement label @ drop p C)
             \<and> written_by w (add_trace filename key label w)
                 = [(filename, take p C @ trace_statement label @ drop p C)]
             \<and> line_count (take p C @ trace_statement label @ drop p C)
                 = line_count C + 1 + line_count label"
    by (intro exI [of _ p])
       (simp add: content_after_def written_by_def line_count_splice line_count_trace_statement)
next
  assume "written_by w (add_trace_before filename key label w) \<noteq> []"
  with assms obtain p where "p \<le> length C"
    "add_trace_before filename key label w =
       Inr (print (''  Instrumented '' @ label @ '' (before) in '' @ filename)
             (write_file filename (take p C @ trace_statement label @ drop p C) w))"
    by (rule add_trace_before_written)
  then show "\<exists>p\<le>length C.
               content_after filename (add_trace_before filename key label w)
                 = Some (take p C @ trace_statement label @ drop p C)
             \<and> written_by w (add_trace_before filename key label w)
                 = [(filename, take p C @ trace_statement label @ drop p C)]
             \<and> line_count (take p C @ trace_statement label @ drop p C)
                 = line_count C + 1 + line_count label"
    by (intro exI [of _ p])
       (simp add: content_after_def written_by_def line_count_splice line_count_trace_statement)
next
  show "last (trace_statement label) = CHR 0x0A" by (simp add: trace_statement_def)
qed

theorem insertion_is_one_splice_witness:
  \<open>read_file ''g.cpp'' \<lparr>files = [''g.cpp'' \<mapsto> ''a();'' @ [CHR 0x0A] @ ''{'' @ [CHR 0x0A]],
          writes = [], console = []\<rparr>
     = Inr (''a();'' @ [CHR 0x0A] @ ''{'' @ [CHR 0x0A])
   \<and> written_by \<lparr>files = [''g.cpp'' \<mapsto> ''a();'' @ [CHR 0x0A] @ ''{'' @ [CHR 0x0A]],
          writes = [], console = []\<rparr>
        (add_trace ''g.cpp'' ''{'' ''Y''
           \<lparr>files = [''g.cpp'' \<mapsto> ''a();'' @ [CHR 0x0A] @ ''{'' @ [CHR 0x0A]],
            writes = [], console = []\<rparr>) \<noteq> []
   \<and> written_by \<lparr>files = [''g.cpp'' \<mapsto> ''a();'' @ [CHR 0x0A] @ ''{'' @ [CHR 0x0A]],
          writes = [], console = []\<rparr>
        (add_trace_before ''g.cpp'' ''{'' ''Y''
           \<lparr>files = [''g.cpp'' \<mapsto> ''a();'' @ [CHR 0x0A] @ ''{'' @ [CHR 0x0A]],
            writes = [], console = []\<rparr>) \<noteq> []
   \<and> (\<exists>p\<le>length (''a();'' @ [CHR 0x0A] @ ''{'' @ [CHR 0x0A]).
         content_after ''g.cpp''
           (add_trace ''g.cpp'' ''{'' ''Y''
              \<lparr>files = [''g.cpp'' \<mapsto> ''a();'' @ [CHR 0x0A] @ ''{'' @ [CHR 0x0A]],
               writes = [], console = []\<rparr>)
         = Some (take p (''a();'' @ [CHR 0x0A] @ ''{'' @ [CHR 0x0A]) @ trace_statement ''Y''
                 @ drop p (''a();'' @ [CHR 0x0A] @ ''{'' @ [CHR 0x0A]))
         \<and> line_count (take p (''a();'' @ [CHR 0x0A] @ ''{'' @ [CHR 0x0A]) @ trace_statement ''Y''
                 @ drop p (''a();'' @ [CHR 0x0A] @ ''{'' @ [CHR 0x0A])) = 3)
   \<and> (\<exists>p\<le>length (''a();'' @ [CHR 0x0A] @ ''{'' @ [CHR 0x0A]).
         content_after ''g.cpp''
           (add_trace_before ''g.cpp'' ''{'' ''Y''
              \<lparr>files = [''g.cpp'' \<mapsto> ''a();'' @ [CHR 0x0A] @ ''{'' @ [CHR 0x0A]],
               writes = [], console = []\<rparr>)
         = Some (take p (''a();'' @ [CHR 0x0A] @ ''{'' @ [CHR 0x0A]) @ trace_statement ''Y''
                 @ drop p (''a();'' @ [CHR 0x0A] @ ''{'' @ [CHR 0x0A]))
         \<and> line_count (take p (''a();'' @ [CHR 0x0A] @ ''{'' @ [CHR 0x0A]) @ trace_statement ''Y''
                 @ drop p (''a();'' @ [CHR 0x0A] @ ''{'' @ [CHR 0x0A])) = 3)\<close>
proof -
  let ?C = "''a();'' @ [CHR 0x0A] @ ''{'' @ [CHR 0x0A]"
  let ?W = "\<lparr>files = [''g.cpp'' \<mapsto> ?C], writes = [], console = []\<rparr>"
  have f: "read_file ''g.cpp'' ?W = Inr ?C" by (simp add: read_file_def)
  have a: "written_by ?W (add_trace ''g.cpp'' ''{'' ''Y'' ?W) \<noteq> []"
    by (simp add: add_trace_def read_file_def Let_def py_find_def slice_to_def slice_from_def
        write_file_def print_def written_by_def)
  have b: "written_by ?W (add_trace_before ''g.cpp'' ''{'' ''Y'' ?W) \<noteq> []"
    by (simp add: add_trace_before_def read_file_def Let_def py_find_def py_rfind_def slice_to_def
        slice_from_def write_file_def print_def written_by_def)
  have lc: "line_count ?C = 2" "line_count ''Y'' = 0" by (simp_all add: line_count_def)
  from insertion_is_one_splice [OF f, of "''{''" "''Y''"] a b lc show ?thesis
    by (simp only: f a b) auto
qed

section \<open>Console output\<close>

lemma printed_by_simps [simp]:
  "printed_by w (Inr w) = []"
  "printed_by w (Inr (print m w)) = [m]"
  "printed_by w (Inr (print m (write_file f c w))) = [m]"
  by (simp_all add: printed_by_def)

lemma written_by_simps [simp]:
  "written_by w (Inr w) = []"
  "written_by w (Inr (print m w)) = []"
  "written_by w (Inr (print m (write_file f c w))) = [(f, c)]"
  by (simp_all add: written_by_def)

text \<open>
  Claim C7 (console output), as stated, promises exactly one console line for every
  request. Two requests that print nothing: one whose trace statement is already in the
  file, and one whose key is found in a file that has no opening brace after it.
\<close>
theorem silent_request_counterexample:
  \<open>printed_by
      \<lparr>files = [''f.cpp'' \<mapsto> ''    fprintf(stderr, ">>> X'' @ [CHR 0x5C] @ ''n");'' @ [CHR 0x0A]],
       writes = [], console = []\<rparr>
      (add_trace ''f.cpp'' ''int f()'' ''X''
         \<lparr>files = [''f.cpp'' \<mapsto> ''    fprintf(stderr, ">>> X'' @ [CHR 0x5C] @ ''n");'' @ [CHR 0x0A]],
          writes = [], console = []\<rparr>) = []
   \<and> printed_by \<lparr>files = [''f.cpp'' \<mapsto> ''int f();''], writes = [], console = []\<rparr>
      (add_trace ''f.cpp'' ''int f()'' ''X''
         \<lparr>files = [''f.cpp'' \<mapsto> ''int f();''], writes = [], console = []\<rparr>) = []\<close>
  by (simp add: add_trace_def read_file_def Let_def py_find_def slice_to_def slice_from_def
      write_file_def print_def printed_by_def)

text \<open>
  Claim C7, amended. Every request prints at most one message: the success confirmation
  naming the label and the file exactly when the trace statement was written; the warning
  naming the first 60 characters of the locate key and the file exactly when the trace
  statement is absent and the key does not occur; and nothing otherwise, that is when the
  trace statement is already present, or when \<open>add_trace\<close> finds the key but no opening
  brace or no newline after it.
\<close>
theorem console_output_per_request:
  assumes "read_file filename w = Inr C"
  shows "printed_by w (add_trace filename key label w) =
           (if written_by w (add_trace filename key label w) \<noteq> []
            then [''  Instrumented '' @ label @ '' in '' @ filename]
            else if \<not> str_in (trace_statement label) C \<and> \<not> str_in key C
            then [''  WARNING: '' @ [CHR 0x27] @ take 60 key @ ''...'' @ [CHR 0x27]
                  @ '' not found in '' @ filename]
            else [])
       \<and> printed_by w (add_trace_before filename key label w) =
           (if written_by w (add_trace_before filename key label w) \<noteq> []
            then [''  Instrumented '' @ label @ '' (before) in '' @ filename]
            else if \<not> str_in (trace_statement label) C \<and> \<not> str_in key C
            then [''  WARNING before: '' @ [CHR 0x27] @ take 60 key @ ''...'' @ [CHR 0x27]
                  @ '' not found in '' @ filename]
            else [])"
proof
  from assms show "printed_by w (add_trace filename key label w) =
           (if written_by w (add_trace filename key label w) \<noteq> []
            then [''  Instrumented '' @ label @ '' in '' @ filename]
            else if \<not> str_in (trace_statement label) C \<and> \<not> str_in key C
            then [''  WARNING: '' @ [CHR 0x27] @ take 60 key @ ''...'' @ [CHR 0x27]
                  @ '' not found in '' @ filename]
            else [])"
  proof (cases rule: add_trace_cases [of filename w C label key])
    case present
    then show ?thesis by simp
  next
    case not_found
    then show ?thesis by simp
  next
    case (no_brace i)
    then show ?thesis by (simp add: first_at_str_in)
  next
    case (no_newline i b)
    then show ?thesis by (simp add: first_at_str_in)
  next
    case (inserted i b n)
    then show ?thesis by simp
  qed
  from assms show "printed_by w (add_trace_before filename key label w) =
           (if written_by w (add_trace_before filename key label w) \<noteq> []
            then [''  Instrumented '' @ label @ '' (before) in '' @ filename]
            else if \<not> str_in (trace_statement label) C \<and> \<not> str_in key C
            then [''  WARNING before: '' @ [CHR 0x27] @ take 60 key @ ''...'' @ [CHR 0x27]
                  @ '' not found in '' @ filename]
            else [])"
  proof (cases rule: add_trace_before_cases [of filename w C label key])
    case present
    then show ?thesis by simp
  next
    case not_found
    then show ?thesis by simp
  next
    case (inserted i p)
    then show ?thesis by simp
  qed
qed

theorem console_output_per_request_witness:
  \<open>read_file ''g.cpp'' \<lparr>files = [''g.cpp'' \<mapsto> ''a();'' @ [CHR 0x0A] @ ''b();'' @ [CHR 0x0A]],
          writes = [], console = []\<rparr>
     = Inr (''a();'' @ [CHR 0x0A] @ ''b();'' @ [CHR 0x0A])
   \<and> printed_by \<lparr>files = [''g.cpp'' \<mapsto> ''a();'' @ [CHR 0x0A] @ ''b();'' @ [CHR 0x0A]],
          writes = [], console = []\<rparr>
        (add_trace ''g.cpp'' ''missing'' ''Y''
           \<lparr>files = [''g.cpp'' \<mapsto> ''a();'' @ [CHR 0x0A] @ ''b();'' @ [CHR 0x0A]],
            writes = [], console = []\<rparr>)
      = [''  WARNING: '' @ [CHR 0x27] @ ''missing...'' @ [CHR 0x27] @ '' not found in g.cpp'']
   \<and> printed_by \<lparr>files = [''g.cpp'' \<mapsto> ''a();'' @ [CHR 0x0A] @ ''b();'' @ [CHR 0x0A]],
          writes = [], console = []\<rparr>
        (add_trace_before ''g.cpp'' ''missing'' ''Y''
           \<lparr>files = [''g.cpp'' \<mapsto> ''a();'' @ [CHR 0x0A] @ ''b();'' @ [CHR 0x0A]],
            writes = [], console = []\<rparr>)
      = [''  WARNING before: '' @ [CHR 0x27] @ ''missing...'' @ [CHR 0x27] @ '' not found in g.cpp'']\<close>
proof -
  let ?C = "''a();'' @ [CHR 0x0A] @ ''b();'' @ [CHR 0x0A]"
  let ?W = "\<lparr>files = [''g.cpp'' \<mapsto> ?C], writes = [], console = []\<rparr>"
  have f: "read_file ''g.cpp'' ?W = Inr ?C" by (simp add: read_file_def)
  have a: "written_by ?W (add_trace ''g.cpp'' ''missing'' ''Y'' ?W) = []"
    by (simp add: add_trace_def read_file_def Let_def py_find_def slice_to_def slice_from_def
        write_file_def print_def written_by_def)
  have b: "written_by ?W (add_trace_before ''g.cpp'' ''missing'' ''Y'' ?W) = []"
    by (simp add: add_trace_before_def read_file_def Let_def py_find_def py_rfind_def slice_to_def
        slice_from_def write_file_def print_def written_by_def)
  have c: "\<not> str_in (trace_statement ''Y'') ?C" "\<not> str_in ''missing'' ?C"
    by (simp_all add: trace_statement_eq)
  from console_output_per_request [OF f, of "''missing''" "''Y''"] a b c f show ?thesis
    by (simp del: str_in.simps)
qed

section \<open>How often the trace statement occurs\<close>

lemma prefix_append_short:
  assumes "prefix xs (ys @ zs)" "length xs \<le> length ys"
  shows "prefix xs ys"
proof -
  from assms(1) obtain us where "ys @ zs = xs @ us" by (auto simp: prefix_def)
  then have "xs = take (length xs) (ys @ zs)" by simp
  with assms(2) have "xs = take (length xs) ys" by simp
  then show ?thesis by (metis take_is_prefix)
qed

lemma occurs_in_splice:
  assumes occ: "occurs_at (B @ [c]) (A @ (B @ [c]) @ D) j"
    and fresh: "c \<notin> set B"
    and absent: "\<not> str_in (B @ [c]) (A @ D)"
  shows "j = length A"
proof (rule ccontr)
  let ?T = "B @ [c]"
  let ?R = "A @ ?T @ D"
  let ?m = "length B"
  assume ne: "j \<noteq> length A"
  have nth_occ: "?R ! (j + k) = ?T ! k" if "k < length ?T" for k
    using occurs_at_nth [OF occ that] by simp
  have nth_ins: "?R ! (length A + k) = ?T ! k" if "k < length ?T" for k
    using that by (simp add: nth_append)
  have last_c: "?T ! ?m = c" by simp
  have not_c: "?T ! k \<noteq> c" if "k < ?m" for k
    using that fresh by (auto simp: nth_append)
  from occ have jle: "j \<le> length ?R" and pre: "prefix ?T (drop j ?R)"
    by (simp_all add: occurs_at_def)
  from ne consider "j + length ?T \<le> length A" | "j < length A" "length A < j + length ?T"
    | "length A < j" "j < length A + length ?T" | "length A + length ?T \<le> j"
    by linarith
  then show False
  proof cases
    case 1
    then have "drop j ?R = drop j A @ ?T @ D" by simp
    with pre 1 have "prefix ?T (drop j A)"
      by (intro prefix_append_short [of ?T "drop j A" "?T @ D"]) simp_all
    then obtain zs where "drop j A = ?T @ zs" by (auto simp: prefix_def)
    then have "A @ D = take j A @ ?T @ (zs @ D)"
      by (metis append_take_drop_id append.assoc)
    then have "str_in ?T (A @ D)" unfolding str_in_iff_sublist by blast
    with absent show False by simp
  next
    case 2
    then have k: "j + ?m - length A < ?m" and e: "j + ?m = length A + (j + ?m - length A)"
      by simp_all
    have "?R ! (j + ?m) = c" using nth_occ [of ?m] last_c by simp
    moreover have "?R ! (j + ?m) \<noteq> c"
      using nth_ins [of "j + ?m - length A"] not_c [OF k] k e by simp
    ultimately show False by simp
  next
    case 3
    then have k: "length A + ?m - j < ?m" and e: "length A + ?m = j + (length A + ?m - j)"
      by simp_all
    have "?R ! (length A + ?m) = c" using nth_ins [of ?m] last_c by simp
    moreover have "?R ! (length A + ?m) \<noteq> c"
      using nth_occ [of "length A + ?m - j"] not_c [OF k] k e by simp
    ultimately show False by simp
  next
    case 4
    then have "j = length (A @ ?T) + (j - length A - length ?T)" by simp
    then have "drop j ((A @ ?T) @ D) = drop (j - length A - length ?T) D"
      by (metis drop_append add_diff_cancel_left' drop_all le_add1 append_Nil)
    then have "drop j ?R = drop (j - length A - length ?T) D" by simp
    with pre obtain zs where "drop (j - length A - length ?T) D = ?T @ zs"
      by (auto simp: prefix_def)
    then have "A @ D = (A @ take (j - length A - length ?T) D) @ ?T @ zs"
      by (metis append_take_drop_id append.assoc)
    then have "str_in ?T (A @ D)" unfolding str_in_iff_sublist by blast
    with absent show False by simp
  qed
qed

lemma trace_statement_snoc:
  \<open>trace_statement label = (''    fprintf(stderr, ">>> '' @ label @ [CHR 0x5C] @ ''n");'') @ [CHR 0x0A]\<close>
  by (simp add: read_file_def trace_statement_eq)

lemma occurs_at_splice_trace:
  assumes "occurs_at (trace_statement label) (take p C @ trace_statement label @ drop p C) j"
    and "CHR 0x0A \<notin> set label"
    and "\<not> str_in (trace_statement label) C"
    and "p \<le> length C"
  shows "j = p"
proof -
  let ?B = \<open>''    fprintf(stderr, ">>> '' @ label @ [CHR 0x5C] @ ''n");''\<close>
  have t: "trace_statement label = ?B @ [CHR 0x0A]" by (rule trace_statement_snoc)
  have fresh: "CHR 0x0A \<notin> set ?B" using assms(2) by simp
  have absent: "\<not> str_in (?B @ [CHR 0x0A]) (take p C @ drop p C)"
    using assms(3) unfolding t by simp
  have occ: "occurs_at (?B @ [CHR 0x0A]) (take p C @ (?B @ [CHR 0x0A]) @ drop p C) j"
    using assms(1) unfolding t .
  from occurs_in_splice [OF occ fresh absent] assms(4) show ?thesis by simp
qed

lemma occurrences_le_one:
  assumes "\<And>j. occurs_at sub s j \<Longrightarrow> j = p"
  shows "occurrences sub s \<le> 1"
proof -
  let ?xs = "filter (occurs_at sub s) [0..<Suc (length s)]"
  have "distinct ?xs" by (rule distinct_filter) (rule distinct_upt)
  then have "length ?xs = card (set ?xs)" by (simp only: distinct_card)
  also have "set ?xs \<subseteq> {p}" using assms by (auto simp del: upt_Suc)
  then have "card (set ?xs) \<le> card {p}" by (intro card_mono) simp_all
  finally show ?thesis by (simp add: occurrences_def)
qed

lemma occurrences_pos:
  assumes "occurs_at sub s j"
  shows "1 \<le> occurrences sub s"
proof -
  from assms have "j \<in> set (filter (occurs_at sub s) [0..<Suc (length s)])"
    by (simp add: occurs_at_def less_Suc_eq_le del: upt_Suc)
  then have "filter (occurs_at sub s) [0..<Suc (length s)] \<noteq> []" by (metis empty_iff empty_set)
  then show ?thesis by (simp add: occurrences_def Suc_le_eq del: upt_Suc)
qed

lemma occurrences_splice_trace:
  assumes "CHR 0x0A \<notin> set label" "\<not> str_in (trace_statement label) C" "p \<le> length C"
  shows "occurrences (trace_statement label) (take p C @ trace_statement label @ drop p C) = 1"
proof -
  let ?R = "take p C @ trace_statement label @ drop p C"
  have "occurrences (trace_statement label) ?R \<le> 1"
    using assms by (intro occurrences_le_one [of _ _ p]) (rule occurs_at_splice_trace)
  moreover have "occurs_at (trace_statement label) ?R p"
    using assms(3) by (simp add: occurs_at_def)
  then have "1 \<le> occurrences (trace_statement label) ?R" by (rule occurrences_pos)
  ultimately show ?thesis by simp
qed

text \<open>
  Claim C6 (at most one occurrence), as stated, speaks of every content. A content that
  already holds the trace statement twice is left as it is, so the result holds it twice.
\<close>
theorem duplicate_trace_counterexample:
  \<open>content_after ''f.cpp''
      (add_trace_before ''f.cpp'' ''fprintf'' ''X''
         \<lparr>files = [''f.cpp'' \<mapsto> ''    fprintf(stderr, ">>> X'' @ [CHR 0x5C] @ ''n");'' @ [CHR 0x0A]
                                 @ ''    fprintf(stderr, ">>> X'' @ [CHR 0x5C] @ ''n");'' @ [CHR 0x0A]],
          writes = [], console = []\<rparr>)
     = Some (''    fprintf(stderr, ">>> X'' @ [CHR 0x5C] @ ''n");'' @ [CHR 0x0A]
             @ ''    fprintf(stderr, ">>> X'' @ [CHR 0x5C] @ ''n");'' @ [CHR 0x0A])
   \<and> occurrences (''    fprintf(stderr, ">>> X'' @ [CHR 0x5C] @ ''n");'' @ [CHR 0x0A])
        (''    fprintf(stderr, ">>> X'' @ [CHR 0x5C] @ ''n");'' @ [CHR 0x0A]
         @ ''    fprintf(stderr, ">>> X'' @ [CHR 0x5C] @ ''n");'' @ [CHR 0x0A]) = 2\<close>
  by (simp add: add_trace_before_def read_file_def Let_def content_after_def
      occurrences_def occurs_at_def)

text \<open>
  Claim C6, amended. When the content holds the trace statement for the label at most once
  and the label holds no newline, the content after the request, in either mode, holds it
  at most once, and exactly once when the request inserted it. (A content that already
  holds the trace statement is never changed, however often it holds it.)
\<close>
theorem at_most_one_trace_statement:
  assumes "files w filename = Some C"
    and "occurrences (trace_statement label) C \<le> 1"
    and "CHR 0x0A \<notin> set label"
  shows "(\<exists>R. content_after filename (add_trace filename key label w) = Some R
            \<and> occurrences (trace_statement label) R \<le> 1
            \<and> (written_by w (add_trace filename key label w) \<noteq> []
                 \<longrightarrow> occurrences (trace_statement label) R = 1))
       \<and> (\<exists>R. content_after filename (add_trace_before filename key label w) = Some R
            \<and> occurrences (trace_statement label) R \<le> 1
            \<and> (written_by w (add_trace_before filename key label w) \<noteq> []
                 \<longrightarrow> occurrences (trace_statement label) R = 1))"
proof
  let ?D = "universal_newlines C"
  from assms(1) have rd: "read_file filename w = Inr ?D" by (simp add: read_file_def)
  show "\<exists>R. content_after filename (add_trace filename key label w) = Some R
            \<and> occurrences (trace_statement label) R \<le> 1
            \<and> (written_by w (add_trace filename key label w) \<noteq> []
                 \<longrightarrow> occurrences (trace_statement label) R = 1)"
  proof (cases "written_by w (add_trace filename key label w) = []")
    case True
    have "content_after filename (add_trace filename key label w) = Some C"
      using rd
    proof (cases rule: add_trace_cases [of filename w ?D label key])
      case (inserted i b n)
      with True show ?thesis by simp
    qed (simp_all add: content_after_def assms(1))
    with True assms(2) show ?thesis by simp
  next
    case False
    with rd obtain p where p: "p \<le> length ?D" "\<not> str_in (trace_statement label) ?D"
      "add_trace filename key label w =
         Inr (print (''  Instrumented '' @ label @ '' in '' @ filename)
               (write_file filename (take p ?D @ trace_statement label @ drop p ?D) w))"
      by (rule add_trace_written)
    from assms(3) p(2,1)
    have "occurrences (trace_statement label) (take p ?D @ trace_statement label @ drop p ?D) = 1"
      by (rule occurrences_splice_trace)
    with p(3) show ?thesis by (simp add: content_after_def)
  qed
  show "\<exists>R. content_after filename (add_trace_before filename key label w) = Some R
            \<and> occurrences (trace_statement label) R \<le> 1
            \<and> (written_by w (add_trace_before filename key label w) \<noteq> []
                 \<longrightarrow> occurrences (trace_statement label) R = 1)"
  proof (cases "written_by w (add_trace_before filename key label w) = []")
    case True
    have "content_after filename (add_trace_before filename key label w) = Some C"
      using rd
    proof (cases rule: add_trace_before_cases [of filename w ?D label key])
      case (inserted i p)
      with True show ?thesis by simp
    qed (simp_all add: content_after_def assms(1))
    with True assms(2) show ?thesis by simp
  next
    case False
    with rd obtain p where p: "p \<le> length ?D" "\<not> str_in (trace_statement label) ?D"
      "add_trace_before filename key label w =
         Inr (print (''  Instrumented '' @ label @ '' (before) in '' @ filename)
               (write_file filename (take p ?D @ trace_statement label @ drop p ?D) w))"
      by (rule add_trace_before_written)
    from assms(3) p(2,1)
    have "occurrences (trace_statement label) (take p ?D @ trace_statement label @ drop p ?D) = 1"
      by (rule occurrences_splice_trace)
    with p(3) show ?thesis by (simp add: content_after_def)
  qed
qed

theorem at_most_one_trace_statement_witness:
  \<open>files \<lparr>files = [''g.cpp'' \<mapsto> ''{'' @ [CHR 0x0A]], writes = [], console = []\<rparr> ''g.cpp''
     = Some (''{'' @ [CHR 0x0A])
   \<and> occurrences (trace_statement ''Y'') (''{'' @ [CHR 0x0A]) \<le> 1
   \<and> CHR 0x0A \<notin> set ''Y''
   \<and> content_after ''g.cpp''
        (add_trace ''g.cpp'' ''{'' ''Y''
           \<lparr>files = [''g.cpp'' \<mapsto> ''{'' @ [CHR 0x0A]], writes = [], console = []\<rparr>)
      = Some (''{'' @ [CHR 0x0A] @ trace_statement ''Y'')
   \<and> occurrences (trace_statement ''Y'') (''{'' @ [CHR 0x0A] @ trace_statement ''Y'') = 1
   \<and> content_after ''g.cpp''
        (add_trace_before ''g.cpp'' ''{'' ''Y''
           \<lparr>files = [''g.cpp'' \<mapsto> ''{'' @ [CHR 0x0A]], writes = [], console = []\<rparr>)
      = Some (trace_statement ''Y'' @ ''{'' @ [CHR 0x0A])
   \<and> occurrences (trace_statement ''Y'') (trace_statement ''Y'' @ ''{'' @ [CHR 0x0A]) = 1\<close>
proof -
  let ?C = "''{'' @ [CHR 0x0A]"
  let ?W = "\<lparr>files = [''g.cpp'' \<mapsto> ?C], writes = [], console = []\<rparr>"
  have f: "files ?W ''g.cpp'' = Some ?C" by simp
  have o: "occurrences (trace_statement ''Y'') ?C \<le> 1"
    by (simp add: occurrences_def occurs_at_def trace_statement_eq)
  have n: "CHR 0x0A \<notin> set ''Y''" by simp
  have a: "add_trace ''g.cpp'' ''{'' ''Y'' ?W =
      Inr (print ''  Instrumented Y in g.cpp''
            (write_file ''g.cpp'' (?C @ trace_statement ''Y'') ?W))"
    by (simp add: add_trace_def read_file_def Let_def py_find_def slice_to_def slice_from_def
        trace_statement_eq)
  have b: "add_trace_before ''g.cpp'' ''{'' ''Y'' ?W =
      Inr (print ''  Instrumented Y (before) in g.cpp''
            (write_file ''g.cpp'' (trace_statement ''Y'' @ ?C) ?W))"
    by (simp add: add_trace_before_def read_file_def Let_def py_find_def py_rfind_def slice_to_def
        slice_from_def trace_statement_eq)
  from at_most_one_trace_statement [OF f o n, of "''{''"] f o n show ?thesis
    unfolding a b by (simp add: content_after_def)
qed

text \<open>
  The condition on the label cannot be dropped: a label can make the trace statement
  overlap with itself. Here the file holds the trace statement for the empty label, and
  the label is chosen so that its trace statement is that text twice; after the insertion
  the new trace statement occurs at two indices of the content.
\<close>

lemma overlapping_trace_example:
  \<open>content_after ''f.cpp''
      (add_trace_before ''f.cpp'' ''fprintf''
         ([CHR 0x5C] @ ''n");'' @ [CHR 0x0A] @ ''    fprintf(stderr, ">>> '')
         \<lparr>files = [''f.cpp'' \<mapsto> trace_statement ''''], writes = [], console = []\<rparr>)
     = Some (trace_statement '''' @ trace_statement '''' @ trace_statement '''')
   \<and> trace_statement ([CHR 0x5C] @ ''n");'' @ [CHR 0x0A] @ ''    fprintf(stderr, ">>> '')
       = trace_statement '''' @ trace_statement ''''
   \<and> occurrences (trace_statement '''' @ trace_statement '''')
        (trace_statement '''' @ trace_statement '''' @ trace_statement '''') = 2\<close>
  by (simp add: add_trace_before_def read_file_def Let_def py_find_def py_rfind_def slice_to_def
      slice_from_def content_after_def write_file_def print_def
      occurrences_def occurs_at_def trace_statement_eq)

section \<open>Running a request again\<close>

lemma universal_newlines_no_cr: "CHR 0x0D \<notin> set (universal_newlines s)"
  by (induction s rule: universal_newlines.induct) auto

lemma universal_newlines_id: "CHR 0x0D \<notin> set s \<Longrightarrow> universal_newlines s = s"
  by (induction s rule: universal_newlines.induct) auto

lemma read_file_no_cr: "read_file filename w = Inr C \<Longrightarrow> CHR 0x0D \<notin> set C"
  by (auto simp: read_file_def universal_newlines_no_cr split: option.splits)

lemma trace_statement_no_cr:
  "CHR 0x0D \<notin> set label \<Longrightarrow> CHR 0x0D \<notin> set (trace_statement label)"
  by (simp add: trace_statement_eq)

lemma read_back_splice:
  assumes "read_file filename w = Inr C" "CHR 0x0D \<notin> set label"
  shows "read_file filename
           (print m (write_file filename (take p C @ trace_statement label @ drop p C) w))
         = Inr (take p C @ trace_statement label @ drop p C)"
proof -
  from assms(1) have "CHR 0x0D \<notin> set C" by (rule read_file_no_cr)
  then have "CHR 0x0D \<notin> set (take p C)" "CHR 0x0D \<notin> set (drop p C)"
    by (auto dest: in_set_takeD in_set_dropD)
  with trace_statement_no_cr [OF assms(2)]
  have "CHR 0x0D \<notin> set (take p C @ trace_statement label @ drop p C)" by simp
  then show ?thesis by (simp add: read_file_def universal_newlines_id)
qed

lemma add_trace_run:
  assumes "add_trace filename key label w = Inr w1"
  obtains (same) "files w1 = files w" "writes w1 = writes w"
      "written_by w (add_trace filename key label w) = []"
  | (wrote) C p where "read_file filename w = Inr C" "p \<le> length C"
      "w1 = print (''  Instrumented '' @ label @ '' in '' @ filename)
              (write_file filename (take p C @ trace_statement label @ drop p C) w)"
proof (cases "read_file filename w")
  case (Inl e)
  with assms show ?thesis by (simp add: add_trace_read_error)
next
  case (Inr C)
  show ?thesis
  proof (cases "written_by w (add_trace filename key label w) = []")
    case True
    have "files w1 = files w \<and> writes w1 = writes w"
      using Inr
    proof (cases rule: add_trace_cases [of filename w C label key])
      case (inserted i b n)
      with True show ?thesis by simp
    qed (use assms in auto)
    then show ?thesis using True by (intro same) simp_all
  next
    case False
    with Inr obtain p where "p \<le> length C"
      "add_trace filename key label w =
         Inr (print (''  Instrumented '' @ label @ '' in '' @ filename)
               (write_file filename (take p C @ trace_statement label @ drop p C) w))"
      by (rule add_trace_written)
    with assms Inr show ?thesis by (intro wrote [of C p]) simp_all
  qed
qed

lemma add_trace_before_run:
  assumes "add_trace_before filename key label w = Inr w1"
  obtains (same) "files w1 = files w" "writes w1 = writes w"
      "written_by w (add_trace_before filename key label w) = []"
  | (wrote) C p where "read_file filename w = Inr C" "p \<le> length C"
      "w1 = print (''  Instrumented '' @ label @ '' (before) in '' @ filename)
              (write_file filename (take p C @ trace_statement label @ drop p C) w)"
proof (cases "read_file filename w")
  case (Inl e)
  with assms show ?thesis by (simp add: add_trace_before_read_error)
next
  case (Inr C)
  show ?thesis
  proof (cases "written_by w (add_trace_before filename key label w) = []")
    case True
    have "files w1 = files w \<and> writes w1 = writes w"
      using Inr
    proof (cases rule: add_trace_before_cases [of filename w C label key])
      case (inserted i p)
      with True show ?thesis by simp
    qed (use assms in auto)
    then show ?thesis using True by (intro same) simp_all
  next
    case False
    with Inr obtain p where "p \<le> length C"
      "add_trace_before filename key label w =
         Inr (print (''  Instrumented '' @ label @ '' (before) in '' @ filename)
               (write_file filename (take p C @ trace_statement label @ drop p C) w))"
      by (rule add_trace_before_written)
    with assms Inr show ?thesis by (intro wrote [of C p]) simp_all
  qed
qed




text \<open>
  Claim C9 (one trace statement for both modes), as stated, promises that after either
  mode has inserted the trace for a label the other mode is a no-op. With the label
  \<open>a\<close>, carriage return, \<open>b\<close>, \<open>add_trace\<close> inserts, and \<open>add_trace_before\<close> on the world it
  leaves reads the carriage return back as a newline and writes the file again.
\<close>
theorem other_mode_inserts_again_counterexample:
  \<open>add_trace ''f.cpp'' ''{'' (''a'' @ [CHR 0x0D] @ ''b'')
      \<lparr>files = [''f.cpp'' \<mapsto> ''{'' @ [CHR 0x0A]], writes = [], console = []\<rparr>
     = Inr \<lparr>files = [''f.cpp'' \<mapsto> ''{'' @ [CHR 0x0A] @ trace_statement (''a'' @ [CHR 0x0D] @ ''b'')],
            writes = [(''f.cpp'', ''{'' @ [CHR 0x0A] @ trace_statement (''a'' @ [CHR 0x0D] @ ''b''))],
            console = [''  Instrumented a'' @ [CHR 0x0D] @ ''b in f.cpp'']\<rparr>
   \<and> written_by
        \<lparr>files = [''f.cpp'' \<mapsto> ''{'' @ [CHR 0x0A] @ trace_statement (''a'' @ [CHR 0x0D] @ ''b'')],
         writes = [(''f.cpp'', ''{'' @ [CHR 0x0A] @ trace_statement (''a'' @ [CHR 0x0D] @ ''b''))],
         console = [''  Instrumented a'' @ [CHR 0x0D] @ ''b in f.cpp'']\<rparr>
        (add_trace_before ''f.cpp'' ''{'' (''a'' @ [CHR 0x0D] @ ''b'')
           \<lparr>files = [''f.cpp'' \<mapsto> ''{'' @ [CHR 0x0A] @ trace_statement (''a'' @ [CHR 0x0D] @ ''b'')],
            writes = [(''f.cpp'', ''{'' @ [CHR 0x0A] @ trace_statement (''a'' @ [CHR 0x0D] @ ''b''))],
            console = [''  Instrumented a'' @ [CHR 0x0D] @ ''b in f.cpp'']\<rparr>)
     = [(''f.cpp'', trace_statement (''a'' @ [CHR 0x0D] @ ''b'') @ ''{'' @ [CHR 0x0A]
                    @ trace_statement (''a'' @ [CHR 0x0A] @ ''b''))]\<close>
  by (simp add: add_trace_def add_trace_before_def read_file_def Let_def py_find_def py_rfind_def
      slice_to_def slice_from_def write_file_def print_def written_by_def trace_statement_eq)

text \<open>
  Claim C9, amended. Whichever mode inserts, the text spliced into the content is the same
  trace statement for the label: four spaces, the \<open>fprintf\<close> call with the label, a
  newline. So after either mode has inserted the trace for a label that holds no carriage
  return, the other mode with the same label (and any locate key) returns the world as it
  is.
\<close>
theorem both_modes_same_trace_statement:
  "(add_trace filename key label w = Inr w1 \<and> writes w1 \<noteq> writes w \<longrightarrow>
      (\<exists>C p. read_file filename w = Inr C \<and> p \<le> length C
             \<and> files w1 filename = Some (take p C @ trace_statement label @ drop p C))
      \<and> (CHR 0x0D \<notin> set label \<longrightarrow> add_trace_before filename key' label w1 = Inr w1))
   \<and> (add_trace_before filename key label w = Inr w1 \<and> writes w1 \<noteq> writes w \<longrightarrow>
      (\<exists>C p. read_file filename w = Inr C \<and> p \<le> length C
             \<and> files w1 filename = Some (take p C @ trace_statement label @ drop p C))
      \<and> (CHR 0x0D \<notin> set label \<longrightarrow> add_trace filename key' label w1 = Inr w1))"
proof (intro conjI impI)
  assume a: "add_trace filename key label w = Inr w1 \<and> writes w1 \<noteq> writes w"
  then obtain C p where cp: "read_file filename w = Inr C" "p \<le> length C"
    "w1 = print (''  Instrumented '' @ label @ '' in '' @ filename)
              (write_file filename (take p C @ trace_statement label @ drop p C) w)"
    by (blast elim: add_trace_run)
  then show "\<exists>C p. read_file filename w = Inr C \<and> p \<le> length C
             \<and> files w1 filename = Some (take p C @ trace_statement label @ drop p C)"
    by (intro exI [of _ C] exI [of _ p]) simp
  assume "CHR 0x0D \<notin> set label"
  with cp have "read_file filename w1 = Inr (take p C @ trace_statement label @ drop p C)"
    by (simp add: read_back_splice)
  then show "add_trace_before filename key' label w1 = Inr w1"
    by (simp add: add_trace_before_unfold str_in_splice)
next
  assume a: "add_trace_before filename key label w = Inr w1 \<and> writes w1 \<noteq> writes w"
  then obtain C p where cp: "read_file filename w = Inr C" "p \<le> length C"
    "w1 = print (''  Instrumented '' @ label @ '' (before) in '' @ filename)
              (write_file filename (take p C @ trace_statement label @ drop p C) w)"
    by (blast elim: add_trace_before_run)
  then show "\<exists>C p. read_file filename w = Inr C \<and> p \<le> length C
             \<and> files w1 filename = Some (take p C @ trace_statement label @ drop p C)"
    by (intro exI [of _ C] exI [of _ p]) simp
  assume "CHR 0x0D \<notin> set label"
  with cp have "read_file filename w1 = Inr (take p C @ trace_statement label @ drop p C)"
    by (simp add: read_back_splice)
  then show "add_trace filename key' label w1 = Inr w1"
    by (simp add: add_trace_unfold str_in_splice)
qed

theorem both_modes_same_trace_statement_witness:
  \<open>CHR 0x0D \<notin> set ''L''
   \<and> add_trace ''f.cpp'' ''{'' ''L'' \<lparr>files = [''f.cpp'' \<mapsto> ''{'' @ [CHR 0x0A]], writes = [], console = []\<rparr>
     = Inr \<lparr>files = [''f.cpp'' \<mapsto> ''{'' @ [CHR 0x0A] @ trace_statement ''L''],
            writes = [(''f.cpp'', ''{'' @ [CHR 0x0A] @ trace_statement ''L'')],
            console = [''  Instrumented L in f.cpp'']\<rparr>
   \<and> add_trace_before ''f.cpp'' ''{'' ''L''
       \<lparr>files = [''f.cpp'' \<mapsto> ''{'' @ [CHR 0x0A] @ trace_statement ''L''],
        writes = [(''f.cpp'', ''{'' @ [CHR 0x0A] @ trace_statement ''L'')],
        console = [''  Instrumented L in f.cpp'']\<rparr>
     = Inr \<lparr>files = [''f.cpp'' \<mapsto> ''{'' @ [CHR 0x0A] @ trace_statement ''L''],
            writes = [(''f.cpp'', ''{'' @ [CHR 0x0A] @ trace_statement ''L'')],
            console = [''  Instrumented L in f.cpp'']\<rparr>
   \<and> add_trace_before ''f.cpp'' ''{'' ''L''
       \<lparr>files = [''f.cpp'' \<mapsto> ''{'' @ [CHR 0x0A]], writes = [], console = []\<rparr>
     = Inr \<lparr>files = [''f.cpp'' \<mapsto> trace_statement ''L'' @ ''{'' @ [CHR 0x0A]],
            writes = [(''f.cpp'', trace_statement ''L'' @ ''{'' @ [CHR 0x0A])],
            console = [''  Instrumented L (before) in f.cpp'']\<rparr>
   \<and> add_trace ''f.cpp'' ''{'' ''L''
       \<lparr>files = [''f.cpp'' \<mapsto> trace_statement ''L'' @ ''{'' @ [CHR 0x0A]],
        writes = [(''f.cpp'', trace_statement ''L'' @ ''{'' @ [CHR 0x0A])],
        console = [''  Instrumented L (before) in f.cpp'']\<rparr>
     = Inr \<lparr>files = [''f.cpp'' \<mapsto> trace_statement ''L'' @ ''{'' @ [CHR 0x0A]],
            writes = [(''f.cpp'', trace_statement ''L'' @ ''{'' @ [CHR 0x0A])],
            console = [''  Instrumented L (before) in f.cpp'']\<rparr>\<close>
proof -
  let ?W = "\<lparr>files = [''f.cpp'' \<mapsto> ''{'' @ [CHR 0x0A]], writes = [], console = []\<rparr>"
  let ?W1 = "\<lparr>files = [''f.cpp'' \<mapsto> ''{'' @ [CHR 0x0A] @ trace_statement ''L''],
            writes = [(''f.cpp'', ''{'' @ [CHR 0x0A] @ trace_statement ''L'')],
            console = [''  Instrumented L in f.cpp'']\<rparr>"
  let ?W2 = "\<lparr>files = [''f.cpp'' \<mapsto> trace_statement ''L'' @ ''{'' @ [CHR 0x0A]],
            writes = [(''f.cpp'', trace_statement ''L'' @ ''{'' @ [CHR 0x0A])],
            console = [''  Instrumented L (before) in f.cpp'']\<rparr>"
  have n: "CHR 0x0D \<notin> set ''L''" by simp
  have a: "add_trace ''f.cpp'' ''{'' ''L'' ?W = Inr ?W1"
    by (simp add: add_trace_def read_file_def Let_def py_find_def slice_to_def slice_from_def
        write_file_def print_def trace_statement_eq)
  have b: "add_trace_before ''f.cpp'' ''{'' ''L'' ?W = Inr ?W2"
    by (simp add: add_trace_before_def read_file_def Let_def py_find_def py_rfind_def slice_to_def
        slice_from_def write_file_def print_def trace_statement_eq)
  have c: "writes ?W1 \<noteq> writes ?W" "writes ?W2 \<noteq> writes ?W" by simp_all
  from both_modes_same_trace_statement [of "''f.cpp''" "''{''" "''L''" ?W ?W1 "''{''"] a c n
  have d: "add_trace_before ''f.cpp'' ''{'' ''L'' ?W1 = Inr ?W1" by blast
  from both_modes_same_trace_statement [of "''f.cpp''" "''{''" "''L''" ?W ?W2 "''{''"] b c n
  have e: "add_trace ''f.cpp'' ''{'' ''L'' ?W2 = Inr ?W2" by blast
  from n a b d e show ?thesis by (intro conjI)
qed

section \<open>Where the trace statement goes\<close>


lemma take_splice:
  assumes "p \<le> k" "p \<le> length s"
  shows "take (k + length t) (take p s @ t @ drop p s) = take p s @ t @ take (k - p) (drop p s)"
  using assms by (simp add: min_absorb2)

lemma drop_splice:
  assumes "p \<le> k" "p \<le> length s"
  shows "drop (k + length t) (take p s @ t @ drop p s) = drop k s"
  using assms by (simp add: min_absorb2)

lemma line_of_splice:
  assumes "p \<le> k" "p \<le> length s"
  shows "line_of (take p s @ t @ drop p s) (k + length t) = line_of s k + line_count t"
proof -
  from assms(1) have "take k s = take p s @ take (k - p) (drop p s)"
    by (metis le_add_diff_inverse take_add)
  then have "line_count (take k s) = line_count (take p s) + line_count (take (k - p) (drop p s))"
    by (simp add: line_count_append)
  moreover have "line_of (take p s @ t @ drop p s) (k + length t)
      = line_count (take p s @ t @ take (k - p) (drop p s))"
    unfolding line_of_def by (simp only: take_splice [OF assms])
  ultimately show ?thesis
    by (simp add: line_of_def line_count_append)
qed




text \<open>
  Claim C4 (insertion point before a line), as stated, concludes that the matched line is
  pushed down by one line. With the label \<open>a\<close>, newline, \<open>b\<close> the matched line \<open>b();\<close>
  moves from line \<open>1\<close> to line \<open>3\<close>.
\<close>
theorem pushed_down_two_lines_counterexample:
  \<open>\<not> str_in (trace_statement (''a'' @ [CHR 0x0A] @ ''b'')) (''a();'' @ [CHR 0x0A] @ ''b();'' @ [CHR 0x0A])
   \<and> first_at ''b();'' (''a();'' @ [CHR 0x0A] @ ''b();'' @ [CHR 0x0A]) 0 5
   \<and> line_start_of (''a();'' @ [CHR 0x0A] @ ''b();'' @ [CHR 0x0A]) 5 5
   \<and> content_after ''g.cpp''
        (add_trace_before ''g.cpp'' ''b();'' (''a'' @ [CHR 0x0A] @ ''b'')
           \<lparr>files = [''g.cpp'' \<mapsto> ''a();'' @ [CHR 0x0A] @ ''b();'' @ [CHR 0x0A]],
            writes = [], console = []\<rparr>)
      = Some (''a();'' @ [CHR 0x0A] @ ''    fprintf(stderr, ">>> a'' @ [CHR 0x0A] @ ''b''
              @ [CHR 0x5C] @ ''n");'' @ [CHR 0x0A] @ ''b();'' @ [CHR 0x0A])
   \<and> first_at ''b();''
        (''a();'' @ [CHR 0x0A] @ ''    fprintf(stderr, ">>> a'' @ [CHR 0x0A] @ ''b''
              @ [CHR 0x5C] @ ''n");'' @ [CHR 0x0A] @ ''b();'' @ [CHR 0x0A]) 0 39
   \<and> line_of (''a();'' @ [CHR 0x0A] @ ''b();'' @ [CHR 0x0A]) 5 = 1
   \<and> line_of (''a();'' @ [CHR 0x0A] @ ''    fprintf(stderr, ">>> a'' @ [CHR 0x0A] @ ''b''
              @ [CHR 0x5C] @ ''n");'' @ [CHR 0x0A] @ ''b();'' @ [CHR 0x0A]) 39 = 3\<close>
  by (simp add: add_trace_before_def read_file_def Let_def py_find_def py_rfind_def slice_to_def
      slice_from_def write_file_def print_def content_after_def trace_statement_eq first_at_def
      occurs_at_def line_start_of_def line_of_def line_count_def atLeastLessThan_nat_numeral)

text \<open>
  Claim C4, amended. When the trace statement is not yet in the content, \<open>i\<close> is the first
  occurrence of the marker and \<open>p\<close> the start of the line holding \<open>i\<close> (right after the
  nearest newline before \<open>i\<close>, or \<open>0\<close> when no newline comes before \<open>i\<close>), then
  \<open>add_trace_before\<close> writes the content with the trace statement spliced in at \<open>p\<close>: the
  matched line and all that follows come right after the trace statement, unchanged, and
  the matched text moves down by \<open>1 +\<close> (the number of newlines of the label) lines, one
  line when the label holds no newline.
\<close>
theorem add_trace_before_splice_at_line_start:
  assumes "read_file filename w = Inr C"
    and "\<not> str_in (trace_statement label) C"
    and "first_at marker C 0 i"
    and "line_start_of C i p"
  shows "content_after filename (add_trace_before filename marker label w)
           = Some (take p C @ trace_statement label @ drop p C)
       \<and> written_by w (add_trace_before filename marker label w)
           = [(filename, take p C @ trace_statement label @ drop p C)]
       \<and> occurs_at (trace_statement label) (take p C @ trace_statement label @ drop p C) p
       \<and> drop (p + length (trace_statement label))
            (take p C @ trace_statement label @ drop p C) = drop p C
       \<and> occurs_at marker (take p C @ trace_statement label @ drop p C)
            (i + length (trace_statement label))
       \<and> line_of (take p C @ trace_statement label @ drop p C) (i + length (trace_statement label))
           = line_of C i + 1 + line_count label"
proof -
  let ?T = "trace_statement label"
  let ?R = "take p C @ ?T @ drop p C"
  from assms(4) have p: "p \<le> i" "i \<le> length C" by (simp_all add: line_start_of_def)
  then have pl: "p \<le> length C" by simp
  from assms(3) have occ: "occurs_at marker C i" by (simp add: first_at_def)
  have run: "add_trace_before filename marker label w =
      Inr (print (''  Instrumented '' @ label @ '' (before) in '' @ filename)
            (write_file filename ?R w))"
    using assms(1)
  proof (cases rule: add_trace_before_cases [of filename w C label marker])
    case present
    with assms(2) show ?thesis by simp
  next
    case not_found
    with assms(3) show ?thesis by (simp add: first_at_str_in)
  next
    case (inserted i' p')
    with assms(3) have "i' = i" by (simp add: first_at_unique)
    with inserted assms(4) have "p' = p" by (simp add: line_start_of_unique)
    with inserted show ?thesis by simp
  qed
  have "occurs_at ?T ?R p" using pl by (simp add: occurs_at_def)
  moreover have d: "drop (p + length ?T) ?R = drop p C"
    using pl by (intro drop_splice) simp_all
  moreover have "drop (i + length ?T) ?R = drop i C"
    using p(1) pl by (rule drop_splice)
  with occ p have "occurs_at marker ?R (i + length ?T)" by (simp add: occurs_at_def)
  moreover have "line_of ?R (i + length ?T) = line_of C i + 1 + line_count label"
    using p(1) pl by (simp add: line_of_splice line_count_trace_statement)
  ultimately show ?thesis using run by (simp add: content_after_def)
qed

theorem add_trace_before_splice_at_line_start_witness:
  \<open>read_file ''g.cpp'' \<lparr>files = [''g.cpp'' \<mapsto> ''a();'' @ [CHR 0x0A] @ ''b();'' @ [CHR 0x0A]],
          writes = [], console = []\<rparr>
     = Inr (''a();'' @ [CHR 0x0A] @ ''b();'' @ [CHR 0x0A])
   \<and> \<not> str_in (trace_statement ''Y'') (''a();'' @ [CHR 0x0A] @ ''b();'' @ [CHR 0x0A])
   \<and> first_at ''b();'' (''a();'' @ [CHR 0x0A] @ ''b();'' @ [CHR 0x0A]) 0 5
   \<and> line_start_of (''a();'' @ [CHR 0x0A] @ ''b();'' @ [CHR 0x0A]) 5 5
   \<and> content_after ''g.cpp''
        (add_trace_before ''g.cpp'' ''b();'' ''Y''
           \<lparr>files = [''g.cpp'' \<mapsto> ''a();'' @ [CHR 0x0A] @ ''b();'' @ [CHR 0x0A]],
            writes = [], console = []\<rparr>)
      = Some (''a();'' @ [CHR 0x0A] @ ''    fprintf(stderr, ">>> Y'' @ [CHR 0x5C] @ ''n");''
              @ [CHR 0x0A] @ ''b();'' @ [CHR 0x0A])
   \<and> line_of (''a();'' @ [CHR 0x0A] @ ''    fprintf(stderr, ">>> Y'' @ [CHR 0x5C] @ ''n");''
              @ [CHR 0x0A] @ ''b();'' @ [CHR 0x0A]) (5 + length (trace_statement ''Y'')) = 2\<close>
  using add_trace_before_splice_at_line_start
    [of "''g.cpp''" "\<lparr>files = [''g.cpp'' \<mapsto> ''a();'' @ [CHR 0x0A] @ ''b();'' @ [CHR 0x0A]],
          writes = [], console = []\<rparr>"
        "''a();'' @ [CHR 0x0A] @ ''b();'' @ [CHR 0x0A]" "''Y''" "''b();''" 5 5]
  by (simp add: read_file_def trace_statement_eq first_at_def occurs_at_def line_start_of_def
      atLeastLessThan_nat_numeral line_of_def line_count_def)

end
